theory Spec2Isabelle
  imports Complex_Main "HOL-Library.Sublist"
begin

section \<open>JavaScript values and strings\<close>

text \<open>
  The survey bot is JavaScript.  A JavaScript string is modelled as a \<^typ>\<open>string\<close>, each
  \<^typ>\<open>char\<close> standing for one UTF-16 code unit below 256; \<open>length\<close> is then the
  \<open>.length\<close> of the source and \<open>take n\<close> is \<open>.slice(0, n)\<close>.

  A value that \<open>JSON.parse\<close> can return is a \<open>json\<close>.  A number is kept as the text that
  \<open>String(x)\<close> prints for it (\<open>0\<close> for both zeros), which is all the bot ever asks of a
  number: its truthiness and its string form.  \<open>undefined\<close> is \<open>None\<close> of \<open>json option\<close>;
  \<open>null\<close> is \<open>JNull\<close>.  An object is the list of its entries in source order; a key written
  twice holds its last value, as in \<open>JSON.parse\<close>.
\<close>

datatype json =
    JNull
  | JBool bool
  | JNum string
  | JStr string
  | JArr "json list"
  | JObj "(string \<times> json) list"

text \<open>A thrown value, with its message.\<close>

datatype js_exn = Exn string

fun truthy :: "json \<Rightarrow> bool" where
  "truthy JNull = False"
| "truthy (JBool b) = b"
| "truthy (JNum n) = (n \<noteq> ''0'' \<and> n \<noteq> ''NaN'')"
| "truthy (JStr s) = (s \<noteq> [])"
| "truthy (JArr xs) = True"
| "truthy (JObj kvs) = True"

fun truthyU :: "json option \<Rightarrow> bool" where
  "truthyU None = False"
| "truthyU (Some v) = truthy v"

text \<open>
  \<open>v.k\<close> for the property names the bot reads (\<open>action\<close>, \<open>summary\<close>, \<open>query\<close>, \<open>url\<close>,
  \<open>label\<close>, \<dots>): none of them is a property of a string, number, boolean or array, so only an
  object can answer.  On \<open>null\<close> the source throws; every call below is behind the guard
  the source has, or models the throw itself.
\<close>

fun getProp :: "json \<Rightarrow> string \<Rightarrow> json option" where
  "getProp (JObj kvs) k = map_of (rev kvs) k"
| "getProp v k = None"

text \<open>\<open>a || b\<close> where \<open>a\<close> is a property read.\<close>

fun orElse :: "json option \<Rightarrow> json \<Rightarrow> json" where
  "orElse None d = d"
| "orElse (Some v) d = (if truthy v then v else d)"

text \<open>Whether \<open>v.slice(...)\<close> can be called: strings and arrays have the method; on any
  other value the call throws a \<open>TypeError\<close>.\<close>

fun hasSlice :: "json \<Rightarrow> bool" where
  "hasSlice (JStr s) = True"
| "hasSlice (JArr xs) = True"
| "hasSlice v = False"

fun join :: "string \<Rightarrow> string list \<Rightarrow> string" where
  "join sep [] = []"
| "join sep [x] = x"
| "join sep (x # y # ys) = x @ sep @ join sep (y # ys)"

text \<open>
  \<open>String(v)\<close> and \<open>`${v}`\<close>.  An object is converted by the \<open>toString\<close> it finds: every
  object of \<open>JSON.parse\<close> inherits the one that prints \<open>[object Object]\<close>, unless it has a
  key \<open>toString\<close> of its own, whose value is no function; the conversion then turns to
  \<open>valueOf\<close>, which gives no primitive either, and throws a \<open>TypeError\<close>.  An array prints
  its elements joined by commas, \<open>null\<close> elements as nothing, and throws when an element
  does.  \<open>stringable\<close> says that the conversion does not throw, \<open>display\<close> is the text it
  gives then, and \<open>toStr\<close> is the conversion.  \<open>undefined\<close> prints as \<open>undefined\<close>.
\<close>

fun stringable :: "json \<Rightarrow> bool" where
  "stringable (JArr xs) = list_all stringable xs"
| "stringable (JObj kvs) = (''toString'' \<notin> set (map fst kvs))"
| "stringable v = True"

fun stringableU :: "json option \<Rightarrow> bool" where
  "stringableU None = True"
| "stringableU (Some v) = stringable v"

fun display :: "json \<Rightarrow> string" where
  "display JNull = ''null''"
| "display (JBool b) = (if b then ''true'' else ''false'')"
| "display (JNum n) = n"
| "display (JStr s) = s"
| "display (JArr xs) = join '','' (map (\<lambda>x. if x = JNull then [] else display x) xs)"
| "display (JObj kvs) = ''[object Object]''"

definition toStr :: "json \<Rightarrow> js_exn + string" where
  "toStr v = (if stringable v then Inr (display v) else Inl (Exn ''TypeError''))"

text \<open>Whether \<open>`${v.length}`\<close> can be printed: a string and an array have a number there,
  an object has what its key \<open>length\<close> holds, any other value has \<open>undefined\<close>.\<close>

fun lengthPrints :: "json \<Rightarrow> bool" where
  "lengthPrints (JObj kvs) = stringableU (map_of (rev kvs) ''length'')"
| "lengthPrints v = True"

text \<open>\<open>v.slice(0, n)\<close> of a string or an array.\<close>

fun sliceTo :: "nat \<Rightarrow> json \<Rightarrow> json" where
  "sliceTo n (JStr s) = JStr (take n s)"
| "sliceTo n (JArr xs) = JArr (take n xs)"
| "sliceTo n v = v"

text \<open>White space as \<open>\s\<close> and \<open>trim()\<close> know it, among the code units below 256:
  TAB, LF, VT, FF, CR, SP and NBSP.\<close>

definition isSpace :: "char \<Rightarrow> bool" where
  "isSpace c \<longleftrightarrow> (of_char c :: nat) \<in> {9, 10, 11, 12, 13, 32, 160}"

definition trim :: "string \<Rightarrow> string" where
  "trim s = rev (dropWhile isSpace (rev (dropWhile isSpace s)))"

text \<open>\<open>toLowerCase()\<close> on code units below 256: A--Z and the accented capitals of Latin-1.\<close>

definition lowerChar :: "char \<Rightarrow> char" where
  "lowerChar c =
     (let n = (of_char c :: nat)
      in if (65 \<le> n \<and> n \<le> 90) \<or> (192 \<le> n \<and> n \<le> 214) \<or> (216 \<le> n \<and> n \<le> 222)
         then char_of (n + 32) else c)"

definition toLowerCase :: "string \<Rightarrow> string" where
  "toLowerCase s = map lowerChar s"

text \<open>\<open>s.includes(x)\<close> and \<open>s.indexOf(x)\<close> (\<open>None\<close> for \<open>-1\<close>).\<close>

fun includesStr :: "string \<Rightarrow> string \<Rightarrow> bool" where
  "includesStr [] x = (x = [])"
| "includesStr (c # cs) x = (prefix x (c # cs) \<or> includesStr cs x)"

fun indexOf :: "string \<Rightarrow> string \<Rightarrow> nat option" where
  "indexOf [] x = (if x = [] then Some 0 else None)"
| "indexOf (c # cs) x =
     (if prefix x (c # cs) then Some 0 else map_option Suc (indexOf cs x))"

section \<open>The command parser\<close>

text \<open>
  \<open>_parseJsonCommand\<close> (llm.js) cleans the model's reply with two global replacements and a
  trim, tries \<open>JSON.parse\<close> on the whole, and otherwise searches for an object by a regular
  expression and a walk over the braces.

  \<open>stripFenceOpen\<close> is \<open>replace(/```(?:json)?\s*/gi, "")\<close>: at each position, three backticks, then
  \<open>json\<close> in any case if it is there, then all the white space that follows, are dropped.
  \<open>removeFence\<close> is \<open>replace(/```/g, "")\<close>.
\<close>

function stripFenceOpen :: "string \<Rightarrow> string" where
  "stripFenceOpen [] = []"
| "stripFenceOpen (c # cs) =
     (if prefix ''```'' (c # cs)
      then (let r = drop 3 (c # cs);
                r' = (if toLowerCase (take 4 r) = ''json'' then drop 4 r else r)
            in stripFenceOpen (dropWhile isSpace r'))
      else c # stripFenceOpen cs)"
  by pat_completeness auto
termination
  by (relation "measure length")
     (auto simp: less_Suc_eq_le intro!: order_trans [OF length_dropWhile_le])

fun removeFence :: "string \<Rightarrow> string" where
  "removeFence (a # b # c # cs) =
     (if a = CHR ''`'' \<and> b = CHR ''`'' \<and> c = CHR ''`''
      then removeFence cs else a # removeFence (b # c # cs))"
| "removeFence cs = cs"

definition cleanReply :: "string \<Rightarrow> string" where
  "cleanReply s = trim (removeFence (stripFenceOpen s))"

text \<open>
  The search expression is \<open>/\{[^{}]*"action"\s*:\s*"[^"]+"/\<close>.  \<open>matchTail\<close> matches
  \<open>"action"\s*:\s*"[^"]+"\<close> at the head of a string and gives the length matched;
  \<open>matchBody\<close> puts the greedy \<open>[^{}]*\<close> before it (the longest run first, then shorter ones);
  \<open>execAction\<close> is \<open>cleaned.match(...)\<close>: the leftmost match, as \<open>match[0]\<close>.
\<close>

definition matchTail :: "string \<Rightarrow> nat option" where
  \<open>matchTail s =
     (if prefix ''"action"'' s then
        (let r1 = dropWhile isSpace (drop 8 s) in
         if prefix '':'' r1 then
           (let r2 = dropWhile isSpace (drop 1 r1) in
            if prefix ''"'' r2 then
              (let v = takeWhile (\<lambda>c. c \<noteq> CHR 0x22) (drop 1 r2);
                   r3 = dropWhile (\<lambda>c. c \<noteq> CHR 0x22) (drop 1 r2)
               in if v \<noteq> [] \<and> r3 \<noteq> [] then Some (length s - length r3 + 1) else None)
            else None)
         else None)
      else None)\<close>

fun matchBody :: "string \<Rightarrow> nat option" where
  "matchBody [] = None"
| "matchBody (c # cs) =
     (if c = CHR ''{'' \<or> c = CHR ''}'' then None
      else (case matchBody cs of
              Some n \<Rightarrow> Some (Suc n)
            | None \<Rightarrow> matchTail (c # cs)))"

fun execAction :: "string \<Rightarrow> string option" where
  "execAction [] = None"
| "execAction (c # cs) =
     (if c = CHR ''{'' then
        (case matchBody cs of
           Some n \<Rightarrow> Some (c # take n cs)
         | None \<Rightarrow> execAction cs)
      else execAction cs)"

text \<open>
  The walk over the braces, from \<open>start\<close>: \<open>depth\<close> goes up at \<open>{\<close> and down at \<open>}\<close>, and the
  first position where it is zero ends the slice.  The result is the number of characters
  in the slice; \<open>None\<close> when the loop runs off the end of the text.
\<close>

fun walkBraces :: "int \<Rightarrow> string \<Rightarrow> nat option" where
  "walkBraces depth [] = None"
| "walkBraces depth (c # cs) =
     (let d1 = (if c = CHR ''{'' then depth + 1 else depth);
          d2 = (if c = CHR ''}'' then d1 - 1 else d1)
      in if d2 = 0 then Some 1 else map_option Suc (walkBraces d2 cs))"

text \<open>
  \<open>JSON.parse\<close> is the host's: the parser takes it as \<open>P\<close>, a function from the text to the
  value, \<open>None\<close> when it throws.  Both \<open>try\<close> blocks catch every throw and fall through.

  When \<open>indexOf\<close> finds nothing the source walks from \<open>-1\<close>, where the depth is zero at once,
  and parses the empty slice.
\<close>

definition scanCommand :: "(string \<Rightarrow> json option) \<Rightarrow> string \<Rightarrow> json" where
  "scanCommand P cleaned =
     (case execAction cleaned of
        None \<Rightarrow> JNull
      | Some m \<Rightarrow>
          (case indexOf cleaned m of
             None \<Rightarrow> (case P [] of None \<Rightarrow> JNull | Some v \<Rightarrow> v)
           | Some start \<Rightarrow>
               (case walkBraces 0 (drop start cleaned) of
                  None \<Rightarrow> JNull
                | Some n \<Rightarrow>
                    (case P (take n (drop start cleaned)) of
                       None \<Rightarrow> JNull
                     | Some v \<Rightarrow> v))))"

definition parseJsonCommand :: "(string \<Rightarrow> json option) \<Rightarrow> string \<Rightarrow> json" where
  "parseJsonCommand P text =
     (if text = [] then JNull
      else (let cleaned = cleanReply text in
            case P cleaned of
              Some full \<Rightarrow>
                (if truthy full \<and> truthyU (getProp full ''action'') then full
                 else scanCommand P cleaned)
            | None \<Rightarrow> scanCommand P cleaned))"

text \<open>\<open>s.match(/\{[\s\S]*\}/)\<close>: from the first \<open>{\<close> to the last \<open>}\<close> after it.\<close>

definition matchBraces :: "string \<Rightarrow> string option" where
  "matchBraces s =
     (let r = dropWhile (\<lambda>c. c \<noteq> CHR ''{'') s
      in if CHR ''}'' \<in> set r
         then Some (rev (dropWhile (\<lambda>c. c \<noteq> CHR ''}'') (rev r)))
         else None)"

section \<open>A reference \<open>JSON.parse\<close>\<close>

text \<open>
  The bot's functions take \<open>JSON.parse\<close> as a parameter \<open>P\<close> (\<open>None\<close>: it throws).  To run
  the bot on concrete replies, \<open>JSON_parse\<close>
  follows the JSON grammar (ECMA-404): a lexer, then a parser with an explicit stack of the
  open arrays and objects.  Two limits keep it inside this model of strings and numbers,
  and it rejects (\<open>None\<close>) what is beyond them: a \<open>\u\<close> escape must name a code unit below 256,
  and a number must be an integer literal of at most 15 digits, which \<open>String\<close> prints as
  it is written (\<open>-0\<close> as \<open>0\<close>).  A text with a fraction, an exponent, a longer number or
  a higher escape is one that \<open>JSON.parse\<close> of the host reads and this parser does not;
  no reply of the runs below holds one.  The general theorems are stated for every \<open>P\<close>;
  \<open>JSON_parse\<close> enters the concrete runs only, and two lemmas on the shape of its result.
\<close>

datatype token =
    TLBrace | TRBrace | TLBracket | TRBracket | TColon | TComma
  | TString string | TNumber string | TTrue | TFalse | TNullLit

definition hexDigit :: "char \<Rightarrow> nat option" where
  "hexDigit c =
     (let n = (of_char c :: nat)
      in if 48 \<le> n \<and> n \<le> 57 then Some (n - 48)
         else if 65 \<le> n \<and> n \<le> 70 then Some (n - 55)
         else if 97 \<le> n \<and> n \<le> 102 then Some (n - 87)
         else None)"

definition unescape :: "char \<Rightarrow> char option" where
  \<open>unescape e =
     (if e = CHR 0x22 then Some (CHR 0x22)
      else if e = CHR 0x5C then Some (CHR 0x5C)
      else if e = CHR ''/'' then Some (CHR ''/'')
      else if e = CHR ''b'' then Some (CHR 0x08)
      else if e = CHR ''f'' then Some (CHR 0x0C)
      else if e = CHR ''n'' then Some (CHR 0x0A)
      else if e = CHR ''r'' then Some (CHR 0x0D)
      else if e = CHR ''t'' then Some (CHR 0x09)
      else None)\<close>

text \<open>The characters of a string literal after its opening quote: the decoded string and
  the text after the closing quote.\<close>

fun lexString :: "string \<Rightarrow> (string \<times> string) option" where
  "lexString [] = None"
| "lexString (c # cs) =
     (if c = CHR 0x22 then Some ([], cs)
      else if c = CHR 0x5C then
        (case cs of
           [] \<Rightarrow> None
         | e # es \<Rightarrow>
             (if e = CHR ''u'' then
                (case es of
                   h1 # h2 # h3 # h4 # r \<Rightarrow>
                     (case (hexDigit h1, hexDigit h2, hexDigit h3, hexDigit h4) of
                        (Some a, Some b, Some x, Some y) \<Rightarrow>
                          (if a = 0 \<and> b = 0
                           then map_option (\<lambda>(s, t). (char_of (16 * x + y) # s, t)) (lexString r)
                           else None)
                      | _ \<Rightarrow> None)
                 | _ \<Rightarrow> None)
              else (case unescape e of
                      None \<Rightarrow> None
                    | Some ch \<Rightarrow> map_option (\<lambda>(s, t). (ch # s, t)) (lexString es))))
      else if (of_char c :: nat) < 32 then None
      else map_option (\<lambda>(s, t). (c # s, t)) (lexString cs))"

definition isDigit :: "char \<Rightarrow> bool" where
  "isDigit c \<longleftrightarrow> 48 \<le> (of_char c :: nat) \<and> (of_char c :: nat) \<le> 57"

text \<open>A number literal at the head of the text: its canonical text and the rest.\<close>

definition lexNumber :: "string \<Rightarrow> (string \<times> string) option" where
  "lexNumber s =
     (let neg = prefix ''-'' s;
          body = (if neg then drop 1 s else s);
          ds = takeWhile isDigit body;
          r = dropWhile isDigit body
      in if ds = [] \<or> (1 < length ds \<and> hd ds = CHR ''0'') \<or> 15 < length ds then None
         else if prefix ''.'' r \<or> prefix ''e'' r \<or> prefix ''E'' r then None
         else Some (if neg \<and> ds \<noteq> ''0'' then CHR ''-'' # ds else ds, r))"

text \<open>
  The tokens of a text.  The two comparisons of lengths are there for the termination
  argument only: the text left after a string or a number is never longer than the text
  before it (\<open>lexString_shorter\<close>, \<open>lexNumber_shorter\<close> below), so neither test fails.
\<close>

function lexJson :: "string \<Rightarrow> token list option" where
  "lexJson [] = Some []"
| "lexJson (c # cs) =
     (if c = CHR '' '' \<or> c = CHR 0x09 \<or> c = CHR 0x0A \<or> c = CHR 0x0D then lexJson cs
      else if c = CHR ''{'' then map_option (Cons TLBrace) (lexJson cs)
      else if c = CHR ''}'' then map_option (Cons TRBrace) (lexJson cs)
      else if c = CHR ''['' then map_option (Cons TLBracket) (lexJson cs)
      else if c = CHR '']'' then map_option (Cons TRBracket) (lexJson cs)
      else if c = CHR '':'' then map_option (Cons TColon) (lexJson cs)
      else if c = CHR '','' then map_option (Cons TComma) (lexJson cs)
      else if c = CHR 0x22 then
        (case lexString cs of
           None \<Rightarrow> None
         | Some (s, r) \<Rightarrow>
             (if length r \<le> length cs then map_option (Cons (TString s)) (lexJson r) else None))
      else if prefix ''true'' (c # cs) then map_option (Cons TTrue) (lexJson (drop 3 cs))
      else if prefix ''false'' (c # cs) then map_option (Cons TFalse) (lexJson (drop 4 cs))
      else if prefix ''null'' (c # cs) then map_option (Cons TNullLit) (lexJson (drop 3 cs))
      else if c = CHR ''-'' \<or> isDigit c then
        (case lexNumber (c # cs) of
           None \<Rightarrow> None
         | Some (n, r) \<Rightarrow>
             (if length r \<le> length cs then map_option (Cons (TNumber n)) (lexJson r) else None))
      else None)"
  by pat_completeness auto
termination
  by (relation "measure length") auto

text \<open>
  The parser reads the tokens once.  The stack holds the open containers, innermost first:
  an array with its elements so far, an object with its entries so far and the key whose
  value is being read (both newest first).  The mode says what may come next.
\<close>

datatype frame = InArray "json list" | InObject "(string \<times> json) list" string

datatype mode =
    WantValue
  | WantValueOrClose
  | WantKeyOrClose
  | WantKey
  | WantColon
  | WantCommaOrClose
  | Finished json

text \<open>A value is complete: it is the result, or it goes into the innermost container.\<close>

fun completeValue :: "json \<Rightarrow> frame list \<Rightarrow> mode \<times> frame list" where
  "completeValue v [] = (Finished v, [])"
| "completeValue v (InArray xs # st) = (WantCommaOrClose, InArray (v # xs) # st)"
| "completeValue v (InObject kvs k # st) = (WantCommaOrClose, InObject ((k, v) # kvs) k # st)"

fun startValue :: "token \<Rightarrow> frame list \<Rightarrow> (mode \<times> frame list) option" where
  "startValue (TString s) st = Some (completeValue (JStr s) st)"
| "startValue (TNumber n) st = Some (completeValue (JNum n) st)"
| "startValue TTrue st = Some (completeValue (JBool True) st)"
| "startValue TFalse st = Some (completeValue (JBool False) st)"
| "startValue TNullLit st = Some (completeValue JNull st)"
| "startValue TLBracket st = Some (WantValueOrClose, InArray [] # st)"
| "startValue TLBrace st = Some (WantKeyOrClose, InObject [] [] # st)"
| "startValue t st = None"

fun readKey :: "token \<Rightarrow> frame list \<Rightarrow> (mode \<times> frame list) option" where
  "readKey (TString k) (InObject kvs k0 # st) = Some (WantColon, InObject kvs k # st)"
| "readKey t st = None"

fun parseStep :: "mode \<Rightarrow> frame list \<Rightarrow> token \<Rightarrow> (mode \<times> frame list) option" where
  "parseStep WantValue st t = startValue t st"
| "parseStep WantValueOrClose (InArray xs # st) TRBracket = Some (completeValue (JArr (rev xs)) st)"
| "parseStep WantValueOrClose st t = startValue t st"
| "parseStep WantKeyOrClose (InObject kvs k # st) TRBrace = Some (completeValue (JObj (rev kvs)) st)"
| "parseStep WantKeyOrClose st t = readKey t st"
| "parseStep WantKey st t = readKey t st"
| "parseStep WantColon st TColon = Some (WantValue, st)"
| "parseStep WantColon st t = None"
| "parseStep WantCommaOrClose (InArray xs # st) TComma = Some (WantValue, InArray xs # st)"
| "parseStep WantCommaOrClose (InArray xs # st) TRBracket = Some (completeValue (JArr (rev xs)) st)"
| "parseStep WantCommaOrClose (InObject kvs k # st) TComma = Some (WantKey, InObject kvs k # st)"
| "parseStep WantCommaOrClose (InObject kvs k # st) TRBrace = Some (completeValue (JObj (rev kvs)) st)"
| "parseStep WantCommaOrClose st t = None"
| "parseStep (Finished v) st t = None"

fun parseRun :: "mode \<Rightarrow> frame list \<Rightarrow> token list \<Rightarrow> json option" where
  "parseRun (Finished v) st [] = Some v"
| "parseRun m st [] = None"
| "parseRun m st (t # ts) =
     (case parseStep m st t of
        None \<Rightarrow> None
      | Some (m', st') \<Rightarrow> parseRun m' st' ts)"

definition JSON_parse :: "string \<Rightarrow> json option" where
  "JSON_parse s = (case lexJson s of None \<Rightarrow> None | Some ts \<Rightarrow> parseRun WantValue [] ts)"

section \<open>The language-model wrapper (llm.js)\<close>

text \<open>
  \<open>createLLM\<close> returns closures over its resolved configuration; \<open>llm\<close> is that closure
  state together with the outside world the closures call: the chat completion endpoint,
  the search tools, the image endpoints.  Each outside call is a function to its outcome,
  \<open>Inl\<close> when it throws.

  A message of a conversation is kept as the data its text is made from, not as the
  rendered text: the prompts are fixed templates and the model's answer may depend on
  everything put into them.  The temperature of a call is passed along.

  \<open>maxResearchSteps\<close> is the number of iterations the loop counter is compared with, a
  natural number.  \<open>canGenerateImages\<close> is the closure variable of that name, which
  \<open>createLLM\<close> computes from the image provider's preset.
\<close>

record survey =
  title :: string
  question :: string

record survey_option =
  key :: string
  label :: string

datatype search_result = SearchResult json json json

datatype message =
    ResearchSystem
  | ResearchUser string
  | Assistant string
  | Nudge
  | SearchResultsMsg "json option" "search_result list"
  | PageContentMsg "json option" string
  | StepLimitMsg
  | VoteSystem
  | VoteUser survey "survey_option list" "(string \<times> nat) list" string
  | SuggestSystem
  | SuggestUser survey "survey_option list" string
  | RefineSystem
  | RefineUser string

record tools =
  searchFn :: "json \<Rightarrow> js_exn + search_result list"
  fetchPageFn :: "json \<Rightarrow> js_exn + string"

record response =
  status :: nat
  textBody :: "js_exn + string"
  jsonBody :: "js_exn + json"

datatype imageBackend = OpenAICompat | AnthropicRefine | GeminiNative

record llm =
  completionsCreate :: "message list \<Rightarrow> rat \<Rightarrow> js_exn + string option"
  searchTools :: "tools option"
  maxResearchSteps :: nat
  canGenerateImages :: bool
  imgBackend :: imageBackend
  imgClient :: "(string \<Rightarrow> js_exn + json) option"
  renderClient :: "(string \<Rightarrow> js_exn + json) option"
  imageStoreURL :: "string option"
  fetchImagen :: "string \<Rightarrow> js_exn + response"
  bufferFrom :: "json \<Rightarrow> js_exn + string"
  fetchUpload :: "string \<Rightarrow> string \<Rightarrow> js_exn + response"

text \<open>
  What a run does to the outside is logged in order: the \<open>thinking\<close> line the loop prints at
  the head of each iteration, each completion request with the conversation sent, each
  call of a search tool, each image or upload request.
\<close>

datatype event =
    LogStep nat
  | ChatCall "message list" rat
  | SearchCall json
  | ReadCall json
  | ImagenRequest string
  | UploadRequest string string
  | ImagesGenerate string

definition addEvents :: "event list \<Rightarrow> 'a \<times> event list \<Rightarrow> 'a \<times> event list" where
  "addEvents evs p = (fst p, evs @ snd p)"

text \<open>\<open>chat\<close> and \<open>chatMultiTurn\<close>: the content of the first choice, \<open>""\<close> when it is
  \<open>null\<close>, trimmed.\<close>

definition chatMultiTurn ::
  "llm \<Rightarrow> message list \<Rightarrow> rat \<Rightarrow> (js_exn + string) \<times> event list" where
  "chatMultiTurn cfg messages temperature =
     (case completionsCreate cfg messages temperature of
        Inl e \<Rightarrow> (Inl e, [ChatCall messages temperature])
      | Inr content \<Rightarrow>
          (Inr (trim (case content of None \<Rightarrow> [] | Some s \<Rightarrow> s)),
           [ChatCall messages temperature]))"

subsection \<open>The research agent\<close>

text \<open>How one pass through the body of the loop ends: a throw, a \<open>return\<close>, the next
  iteration with the conversation grown, or \<open>break\<close>.\<close>

datatype loop_exit =
    Threw js_exn
  | Returned string
  | Continue "message list"
  | Break "message list"

text \<open>
  \<open>formatSearchResults\<close> prints the title, the snippet and the address of each result into
  a template; \<open>formattable\<close> says that none of these conversions throws.
\<close>

definition formattable :: "search_result list \<Rightarrow> bool" where
  "formattable results \<longleftrightarrow>
     list_all (\<lambda>r. case r of SearchResult t s u \<Rightarrow> stringable t \<and> stringable s \<and> stringable u)
       results"

text \<open>
  The body of the loop from \<open>if (!cmd || !cmd.action)\<close> on.  Every value that is printed,
  into a log line or into a message, is converted to a string there, and the conversion
  may throw: \<open>(cmd.summary || "").length\<close> in the log line of the \<open>done\<close> branch and
  \<open>String(cmd.summary || response)\<close> in its \<open>return\<close>; \<open>cmd.query\<close> in the
  log line before the search, and the results in \<open>formatSearchResults\<close> after it; in the
  \<open>read\<close> branch \<open>(cmd.url || "").slice(0, 60)\<close> in the log line, where \<open>slice\<close> itself
  throws on what is not a string or an array, and \<open>cmd.url\<close> in the message after the page
  is fetched; \<open>cmd.action\<close> in the log line of an unknown action, before the \<open>break\<close>.
\<close>

definition dispatch ::
  "tools \<Rightarrow> string \<Rightarrow> string \<Rightarrow> json \<Rightarrow> message list \<Rightarrow> loop_exit \<times> event list" where
  "dispatch st topic response cmd messages =
     (if \<not> truthy cmd \<or> \<not> truthyU (getProp cmd ''action'') then
        (Returned (take 1500 response), [])
      else if getProp cmd ''action'' = Some (JStr ''done'') then
        (if \<not> lengthPrints (orElse (getProp cmd ''summary'') (JStr [])) then
           (Threw (Exn ''TypeError''), [])
         else
           (case toStr (orElse (getProp cmd ''summary'') (JStr response)) of
              Inl e \<Rightarrow> (Threw e, [])
            | Inr s \<Rightarrow> (Returned (take 1500 s), [])))
      else if getProp cmd ''action'' = Some (JStr ''search'') then
        (if \<not> stringableU (getProp cmd ''query'') then (Threw (Exn ''TypeError''), [])
         else
           (let q = orElse (getProp cmd ''query'') (JStr topic) in
            case searchFn st q of
              Inl e \<Rightarrow> (Threw e, [SearchCall q])
            | Inr results \<Rightarrow>
                (if \<not> formattable results then (Threw (Exn ''TypeError''), [SearchCall q])
                 else
                   (Continue (messages @ [SearchResultsMsg (getProp cmd ''query'') results]),
                    [SearchCall q]))))
      else if getProp cmd ''action'' = Some (JStr ''read'') then
        (let u = orElse (getProp cmd ''url'') (JStr []) in
         if \<not> hasSlice u \<or> \<not> stringable (sliceTo 60 u) then (Threw (Exn ''TypeError''), [])
         else
           (case fetchPageFn st u of
              Inl e \<Rightarrow> (Threw e, [ReadCall u])
            | Inr content \<Rightarrow>
                (if \<not> stringableU (getProp cmd ''url'')
                 then (Threw (Exn ''TypeError''), [ReadCall u])
                 else
                   (Continue (messages @ [PageContentMsg (getProp cmd ''url'') content]),
                    [ReadCall u]))))
      else if \<not> stringableU (getProp cmd ''action'') then (Threw (Exn ''TypeError''), [])
      else (Break messages, []))"

text \<open>
  The head of the body of the loop: the completion, the parse, and on the first step one
  nudge when the parse gave nothing.  It yields the reply, the command parsed from it and
  the conversation so far.
\<close>

definition askModel ::
  "(string \<Rightarrow> json option) \<Rightarrow> llm \<Rightarrow> nat \<Rightarrow> message list
     \<Rightarrow> (js_exn + string \<times> json \<times> message list) \<times> event list" where
  "askModel P cfg step messages =
     (case chatMultiTurn cfg messages (3 / 10) of
        (Inl e, evs) \<Rightarrow> (Inl e, evs)
      | (Inr response, evs) \<Rightarrow>
          (let messages1 = messages @ [Assistant response];
               cmd = parseJsonCommand P response
           in if \<not> truthy cmd \<and> step = 0 then
                (let messages2 = messages1 @ [Nudge] in
                 case chatMultiTurn cfg messages2 (2 / 10) of
                   (Inl e, evs2) \<Rightarrow> (Inl e, evs @ evs2)
                 | (Inr response2, evs2) \<Rightarrow>
                     (Inr (response2, parseJsonCommand P response2,
                           messages2 @ [Assistant response2]),
                      evs @ evs2))
              else (Inr (response, cmd, messages1), evs)))"

definition reasoningStep ::
  "(string \<Rightarrow> json option) \<Rightarrow> llm \<Rightarrow> tools \<Rightarrow> string \<Rightarrow> nat \<Rightarrow> message list
     \<Rightarrow> loop_exit \<times> event list" where
  "reasoningStep P cfg st topic step messages =
     addEvents [LogStep step]
       (case askModel P cfg step messages of
          (Inl e, evs) \<Rightarrow> (Threw e, evs)
        | (Inr (response, cmd, transcript), evs) \<Rightarrow>
            addEvents evs (dispatch st topic response cmd transcript))"

text \<open>After the loop: the step-limit message, one more completion, and the summary read
  from it when it holds an object with one.  This \<open>String(cmd.summary)\<close> is inside the
  \<open>try\<close>: when it throws, the reply itself is the summary.\<close>

definition forceSummary ::
  "(string \<Rightarrow> json option) \<Rightarrow> llm \<Rightarrow> message list \<Rightarrow> (js_exn + string) \<times> event list" where
  "forceSummary P cfg messages =
     (case chatMultiTurn cfg (messages @ [StepLimitMsg]) (3 / 10) of
        (Inl e, evs) \<Rightarrow> (Inl e, evs)
      | (Inr finalResp, evs) \<Rightarrow>
          (let cmd = (case matchBraces finalResp of
                        None \<Rightarrow> Some JNull
                      | Some m \<Rightarrow> P m)
           in case cmd of
                None \<Rightarrow> (Inr (take 1500 finalResp), evs)
              | Some c \<Rightarrow>
                  (case getProp c ''summary'' of
                     None \<Rightarrow> (Inr (take 1500 finalResp), evs)
                   | Some v \<Rightarrow>
                       (if truthy c \<and> truthy v
                        then (case toStr v of
                                Inl e \<Rightarrow> (Inr (take 1500 finalResp), evs)
                              | Inr s \<Rightarrow> (Inr (take 1500 s), evs))
                        else (Inr (take 1500 finalResp), evs)))))"

function research_loop ::
  "(string \<Rightarrow> json option) \<Rightarrow> llm \<Rightarrow> tools \<Rightarrow> string \<Rightarrow> nat \<Rightarrow> message list
     \<Rightarrow> (js_exn + string) \<times> event list" where
  "research_loop P cfg st topic step messages =
     (if step < maxResearchSteps cfg then
        (case reasoningStep P cfg st topic step messages of
           (Threw e, evs) \<Rightarrow> (Inl e, evs)
         | (Returned s, evs) \<Rightarrow> (Inr s, evs)
         | (Continue messages', evs) \<Rightarrow>
             addEvents evs (research_loop P cfg st topic (Suc step) messages')
         | (Break messages', evs) \<Rightarrow> addEvents evs (forceSummary P cfg messages'))
      else forceSummary P cfg messages)"
  by pat_completeness auto
termination
  by (relation "measure (\<lambda>(P, cfg, st, topic, step, messages). maxResearchSteps cfg - step)")
     auto

definition research ::
  "(string \<Rightarrow> json option) \<Rightarrow> llm \<Rightarrow> string \<Rightarrow> (js_exn + string) \<times> event list" where
  "research P cfg topic =
     (case searchTools cfg of
        None \<Rightarrow> (Inr [], [])
      | Some st \<Rightarrow> research_loop P cfg st topic 0 [ResearchSystem, ResearchUser topic])"

subsection \<open>chooseVote\<close>

text \<open>The topic handed to the research agent, as the template builds it.\<close>

definition voteTopic :: "survey \<Rightarrow> survey_option list \<Rightarrow> string" where
  \<open>voteTopic sv options =
     ''Survey: "'' @ title sv @ ''"'' @ [CHR 0x0A] @
     ''Question: "'' @ question sv @ ''"'' @ [CHR 0x0A] @
     ''Options: '' @ join '', '' (map survey_option.label options) @ [CHR 0x0A, CHR 0x0A] @
     ''Research these options to decide which is the best answer. '' @
     ''Look for current information, comparisons, and expert opinions.''\<close>

text \<open>\<open>response.trim().replace(/['"`]/g, "")\<close>.\<close>

definition replyKey :: "string \<Rightarrow> string" where
  \<open>replyKey response =
     filter (\<lambda>c. c \<noteq> CHR 0x27 \<and> c \<noteq> CHR 0x22 \<and> c \<noteq> CHR 0x60) (trim response)\<close>

text \<open>The three tests handed to \<open>options.find\<close>, one for each rung of the ladder.\<close>

definition exactKey :: "string \<Rightarrow> survey_option \<Rightarrow> bool" where
  "exactKey k opt \<longleftrightarrow> key opt = k"

definition sameIgnoringCase :: "string \<Rightarrow> survey_option \<Rightarrow> bool" where
  "sameIgnoringCase lower opt \<longleftrightarrow>
     toLowerCase (survey_option.label opt) = lower \<or> toLowerCase (key opt) = lower"

definition containedIn :: "string \<Rightarrow> survey_option \<Rightarrow> bool" where
  "containedIn lower opt \<longleftrightarrow>
     includesStr lower (toLowerCase (key opt)) \<or>
     includesStr lower (toLowerCase (survey_option.label opt))"

text \<open>
  The tail of \<open>chooseVote\<close>, from the reply to the key returned; \<open>None\<close> is \<open>null\<close>.
  \<open>find\<close> is \<open>Array.prototype.find\<close>: the first option, in list order, that passes.
\<close>

definition matchOption :: "survey_option list \<Rightarrow> string \<Rightarrow> string option" where
  "matchOption options response =
     (let k = replyKey response in
      if find (exactKey k) options \<noteq> None then Some k
      else
        (let lower = toLowerCase k in
         case find (sameIgnoringCase lower) options of
           Some byLabel \<Rightarrow> Some (key byLabel)
         | None \<Rightarrow>
             (case find (containedIn lower) options of
                Some bySub \<Rightarrow> Some (key bySub)
              | None \<Rightarrow>
                  (case options of
                     [] \<Rightarrow> None
                   | opt # rest \<Rightarrow> (if key opt = [] then None else Some (key opt))))))"

definition chooseVote ::
  "(string \<Rightarrow> json option) \<Rightarrow> llm \<Rightarrow> survey \<Rightarrow> survey_option list \<Rightarrow> (string \<times> nat) list
     \<Rightarrow> (js_exn + string option) \<times> event list" where
  "chooseVote P cfg sv options counts =
     (case research P cfg (voteTopic sv options) of
        (Inl e, evs) \<Rightarrow> (Inl e, evs)
      | (Inr researchSummary, evs) \<Rightarrow>
          (case chatMultiTurn cfg [VoteSystem, VoteUser sv options counts researchSummary]
                  (5 / 10) of
             (Inl e, evs2) \<Rightarrow> (Inl e, evs @ evs2)
           | (Inr response, evs2) \<Rightarrow> (Inr (matchOption options response), evs @ evs2)))"

subsection \<open>suggestOption\<close>

record suggestion =
  label :: string
  wantsImage :: bool
  imageDescription :: string

definition suggestTopic :: "survey \<Rightarrow> survey_option list \<Rightarrow> string" where
  \<open>suggestTopic sv existingOptions =
     ''Survey: "'' @ title sv @ ''"'' @ [CHR 0x0A] @
     ''Question: "'' @ question sv @ ''"'' @ [CHR 0x0A] @
     ''Existing options: '' @
     (let ls = join '', '' (map survey_option.label existingOptions)
      in if ls = [] then ''(none)'' else ls) @ [CHR 0x0A, CHR 0x0A] @
     ''Research this topic to come up with a great new option that isn't already listed. '' @
     ''Look for current trends, overlooked answers, and strong candidates. '' @
     ''If you find a relevant article or source, note its URL.''\<close>

text \<open>
  The tail of \<open>suggestOption\<close>, from the reply to the suggestion.  Inside the \<open>try\<close>: the
  object found between the first \<open>{\<close> and the last \<open>}\<close> is parsed; reading a property of
  \<open>null\<close> throws, and so may either \<open>String(...)\<close>; every throw falls through to the
  fallback.
\<close>

definition parseSuggestion :: "(string \<Rightarrow> json option) \<Rightarrow> bool \<Rightarrow> string \<Rightarrow> suggestion" where
  "parseSuggestion P canGen response =
     (let fallback = \<lparr>label = take 200 response, wantsImage = False, imageDescription = []\<rparr>
      in case matchBraces response of
           None \<Rightarrow> fallback
         | Some m \<Rightarrow>
             (case P m of
                None \<Rightarrow> fallback
              | Some parsed \<Rightarrow>
                  (if parsed = JNull then fallback
                   else
                     (case (toStr (orElse (getProp parsed ''label'') (JStr [])),
                            toStr (orElse (getProp parsed ''imageDescription'') (JStr []))) of
                        (Inr l, Inr i) \<Rightarrow>
                          \<lparr>label = take 200 (trim l),
                           wantsImage = (canGen \<and> truthyU (getProp parsed ''wantsImage'')),
                           imageDescription = trim i\<rparr>
                      | _ \<Rightarrow> fallback))))"

definition suggestOption ::
  "(string \<Rightarrow> json option) \<Rightarrow> llm \<Rightarrow> survey \<Rightarrow> survey_option list
     \<Rightarrow> (js_exn + suggestion) \<times> event list" where
  "suggestOption P cfg sv existingOptions =
     (case research P cfg (suggestTopic sv existingOptions) of
        (Inl e, evs) \<Rightarrow> (Inl e, evs)
      | (Inr researchSummary, evs) \<Rightarrow>
          (case chatMultiTurn cfg [SuggestSystem, SuggestUser sv existingOptions researchSummary]
                  (7 / 10) of
             (Inl e, evs2) \<Rightarrow> (Inl e, evs @ evs2)
           | (Inr response, evs2) \<Rightarrow>
               (Inr (parseSuggestion P (canGenerateImages cfg) response), evs @ evs2)))"

subsection \<open>generateImage\<close>

text \<open>
  The result of an image function is a JavaScript value or \<open>undefined\<close>: \<open>Some JNull\<close> is
  \<open>null\<close>, \<open>None\<close> is \<open>undefined\<close>.  \<open>ok\<close> is \<open>resp.ok\<close>: a status from 200 to 299.
\<close>

definition ok :: "response \<Rightarrow> bool" where
  "ok resp \<longleftrightarrow> 200 \<le> status resp \<and> status resp \<le> 299"

text \<open>\<open>v[0]\<close>.\<close>

fun getIndex0 :: "json \<Rightarrow> json option" where
  "getIndex0 (JArr xs) = (case xs of [] \<Rightarrow> None | x # rest \<Rightarrow> Some x)"
| "getIndex0 (JStr s) = (case s of [] \<Rightarrow> None | c # rest \<Rightarrow> Some (JStr [c]))"
| "getIndex0 (JObj kvs) = map_of (rev kvs) ''0''"
| "getIndex0 v = None"

text \<open>\<open>a?.[0]\<close> and \<open>a?.k\<close>: \<open>undefined\<close> when \<open>a\<close> is \<open>null\<close> or \<open>undefined\<close>.\<close>

fun optIndex0 :: "json option \<Rightarrow> json option" where
  "optIndex0 None = None"
| "optIndex0 (Some v) = (if v = JNull then None else getIndex0 v)"

fun optProp :: "json option \<Rightarrow> string \<Rightarrow> json option" where
  "optProp None k = None"
| "optProp (Some v) k = (if v = JNull then None else getProp v k)"

text \<open>\<open>a || null\<close>.\<close>

fun orNull :: "json option \<Rightarrow> json" where
  "orNull None = JNull"
| "orNull (Some v) = (if truthy v then v else JNull)"

text \<open>\<open>_generateImageOpenAICompat\<close> with its client resolved; its log line slices a truthy
  \<open>url\<close> and prints the slice.\<close>

definition generateImageOpenAICompat ::
  "(string \<Rightarrow> js_exn + json) option \<Rightarrow> string \<Rightarrow> (js_exn + json option) \<times> event list" where
  "generateImageOpenAICompat c description =
     (case c of
        None \<Rightarrow> (Inr (Some JNull), [])
      | Some generate \<Rightarrow>
          (case generate description of
             Inl e \<Rightarrow> (Inl e, [ImagesGenerate description])
           | Inr resp \<Rightarrow>
               (if resp = JNull then (Inl (Exn ''TypeError''), [ImagesGenerate description])
                else (case getProp resp ''data'' of
                        None \<Rightarrow> (Inl (Exn ''TypeError''), [ImagesGenerate description])
                      | Some d \<Rightarrow>
                          (if d = JNull
                           then (Inl (Exn ''TypeError''), [ImagesGenerate description])
                           else
                             (let u = orNull (optProp (getIndex0 d) ''url'')
                              in if truthy u \<and> (\<not> hasSlice u \<or> \<not> stringable (sliceTo 80 u))
                                 then (Inl (Exn ''TypeError''), [ImagesGenerate description])
                                 else (Inr (Some u), [ImagesGenerate description])))))))"

text \<open>\<open>_generateImageGemini\<close>; the log line before its \<open>return\<close> prints the \<open>url\<close> of the
  store's answer.\<close>

definition generateImageGemini ::
  "llm \<Rightarrow> string \<Rightarrow> (js_exn + json option) \<times> event list" where
  "generateImageGemini cfg description =
     (case fetchImagen cfg description of
        Inl e \<Rightarrow> (Inl e, [ImagenRequest description])
      | Inr resp \<Rightarrow>
          (if \<not> ok resp then (Inl (Exn ''Imagen API''), [ImagenRequest description])
           else
             (case jsonBody resp of
                Inl e \<Rightarrow> (Inl e, [ImagenRequest description])
              | Inr data \<Rightarrow>
                  (if data = JNull then (Inl (Exn ''TypeError''), [ImagenRequest description])
                   else
                     (let b64 = optProp (optIndex0 (getProp data ''predictions''))
                                  ''bytesBase64Encoded''
                      in if \<not> truthyU b64 then (Inr (Some JNull), [ImagenRequest description])
                         else
                           (case imageStoreURL cfg of
                              None \<Rightarrow> (Inr (Some JNull), [ImagenRequest description])
                            | Some storeURL \<Rightarrow>
                                (if storeURL = [] then
                                   (Inr (Some JNull), [ImagenRequest description])
                                 else
                                   (case bufferFrom cfg (orNull b64) of
                                      Inl e \<Rightarrow> (Inl e, [ImagenRequest description])
                                    | Inr buf \<Rightarrow>
                                        addEvents [ImagenRequest description]
                                          (case fetchUpload cfg (storeURL @ ''/upload'') buf of
                                             Inl e \<Rightarrow>
                                               (Inl e, [UploadRequest (storeURL @ ''/upload'') buf])
                                           | Inr uploadResp \<Rightarrow>
                                               (if \<not> ok uploadResp then
                                                  (Inl (Exn ''Image store upload failed''),
                                                   [UploadRequest (storeURL @ ''/upload'') buf])
                                                else
                                                  (case jsonBody uploadResp of
                                                     Inl e \<Rightarrow>
                                                       (Inl e,
                                                        [UploadRequest (storeURL @ ''/upload'') buf])
                                                   | Inr j \<Rightarrow>
                                                       (if j = JNull then
                                                          (Inl (Exn ''TypeError''),
                                                           [UploadRequest (storeURL @ ''/upload'') buf])
                                                        else if \<not> stringableU (getProp j ''url'')
                                                        then
                                                          (Inl (Exn ''TypeError''),
                                                           [UploadRequest (storeURL @ ''/upload'') buf])
                                                        else
                                                          (Inr (getProp j ''url''),
                                                           [UploadRequest (storeURL @ ''/upload'')
                                                              buf])))))))))))))"

definition generateImageClaudeRefine ::
  "llm \<Rightarrow> string \<Rightarrow> (js_exn + json option) \<times> event list" where
  "generateImageClaudeRefine cfg description =
     (case chatMultiTurn cfg [RefineSystem, RefineUser description] (9 / 10) of
        (Inl e, evs) \<Rightarrow> (Inl e, evs)
      | (Inr refinedPrompt, evs) \<Rightarrow>
          (case renderClient cfg of
             None \<Rightarrow> (Inr (Some JNull), evs)
           | Some c \<Rightarrow> addEvents evs (generateImageOpenAICompat (Some c) refinedPrompt)))"

text \<open>The \<open>catch\<close> of \<open>generateImage\<close> turns every throw of the three strategies into
  \<open>null\<close>.\<close>

definition generateImage ::
  "llm \<Rightarrow> string \<Rightarrow> (js_exn + json option) \<times> event list" where
  "generateImage cfg description =
     (if \<not> canGenerateImages cfg then (Inr (Some JNull), [])
      else
        (case (case imgBackend cfg of
                 GeminiNative \<Rightarrow> generateImageGemini cfg description
               | AnthropicRefine \<Rightarrow> generateImageClaudeRefine cfg description
               | OpenAICompat \<Rightarrow> generateImageOpenAICompat (imgClient cfg) description) of
           (Inl e, evs) \<Rightarrow> (Inr (Some JNull), evs)
         | (Inr v, evs) \<Rightarrow> (Inr v, evs)))"

section \<open>The search tool (search.js)\<close>

definition MAX_RETRIES :: nat where "MAX_RETRIES = 3"
definition BASE_DELAY_MS :: int where "BASE_DELAY_MS = 1200"
definition MAX_QUERY_LEN :: nat where "MAX_QUERY_LEN = 300"

text \<open>
  \<open>sanitizeQuery\<close>: three replacements, a trim and a slice.
  \<open>removeUrls\<close> is \<open>replace(/https?:\/\/\S+/gi, "")\<close>;
  \<open>keepAllowed\<close> is \<open>replace(/[^\w\s\-'",?!]/g, " ")\<close>;
  \<open>collapseSpaces\<close> is \<open>replace(/\s{2,}/g, " ")\<close>.
\<close>

definition urlSchemeLength :: "string \<Rightarrow> nat option" where
  "urlSchemeLength s =
     (if toLowerCase (take 8 s) = ''https://'' then Some 8
      else if toLowerCase (take 7 s) = ''http://'' then Some 7
      else None)"

function removeUrls :: "string \<Rightarrow> string" where
  "removeUrls [] = []"
| "removeUrls (c # cs) =
     (case urlSchemeLength (c # cs) of
        None \<Rightarrow> c # removeUrls cs
      | Some n \<Rightarrow>
          (let r = drop n (c # cs) in
           if r \<noteq> [] \<and> \<not> isSpace (hd r) then removeUrls (dropWhile (\<lambda>x. \<not> isSpace x) r)
           else c # removeUrls cs))"
  by pat_completeness auto
termination
  by (relation "measure length")
     (auto simp: less_Suc_eq_le urlSchemeLength_def split: if_splits
        intro!: order_trans [OF length_dropWhile_le])

definition isWordChar :: "char \<Rightarrow> bool" where
  "isWordChar c \<longleftrightarrow>
     (let n = (of_char c :: nat)
      in (48 \<le> n \<and> n \<le> 57) \<or> (65 \<le> n \<and> n \<le> 90) \<or> (97 \<le> n \<and> n \<le> 122) \<or> n = 95)"

definition keepAllowed :: "string \<Rightarrow> string" where
  \<open>keepAllowed s =
     map (\<lambda>c. if isWordChar c \<or> isSpace c \<or> c \<in> set ''-'' \<or> c = CHR 0x27 \<or> c = CHR 0x22
                  \<or> c \<in> set '',?!''
               then c else CHR '' '') s\<close>

function collapseSpaces :: "string \<Rightarrow> string" where
  "collapseSpaces [] = []"
| "collapseSpaces [c] = [c]"
| "collapseSpaces (c # d # cs) =
     (if isSpace c \<and> isSpace d then CHR '' '' # collapseSpaces (dropWhile isSpace cs)
      else c # collapseSpaces (d # cs))"
  by pat_completeness auto
termination
  by (relation "measure length")
     (auto simp: less_Suc_eq_le intro!: order_trans [OF length_dropWhile_le])

text \<open>\<open>raw.replace\<close> exists only on a string: any other query throws a \<open>TypeError\<close>.\<close>

definition sanitizeQuery :: "json \<Rightarrow> js_exn + string" where
  "sanitizeQuery raw =
     (case raw of
        JStr s \<Rightarrow> Inr (take MAX_QUERY_LEN (trim (collapseSpaces (keepAllowed (removeUrls s)))))
      | _ \<Rightarrow> Inl (Exn ''TypeError''))"

text \<open>What a search call does to the outside: a sleep of so many milliseconds, a request
  to the search endpoint (the cleaned query, the number of the attempt).\<close>

datatype search_event = Sleep int | BraveFetch string nat

text \<open>
  The results of a successful response, \<open>(data.web?.results || []).slice(0, maxResults).map(...)\<close>:
  a property of \<open>null\<close>, \<open>slice\<close> or \<open>map\<close> on what is not an array, and a \<open>null\<close> entry
  all throw.
\<close>

definition toResult :: "json \<Rightarrow> js_exn + search_result" where
  "toResult r =
     (if r = JNull then Inl (Exn ''TypeError'')
      else Inr (SearchResult (orElse (getProp r ''title'') (JStr []))
                             (orElse (getProp r ''description'') (JStr []))
                             (orElse (getProp r ''url'') (JStr []))))"

fun mapResults :: "json list \<Rightarrow> js_exn + search_result list" where
  "mapResults [] = Inr []"
| "mapResults (r # rs) =
     (case toResult r of
        Inl e \<Rightarrow> Inl e
      | Inr x \<Rightarrow> (case mapResults rs of Inl e \<Rightarrow> Inl e | Inr xs \<Rightarrow> Inr (x # xs)))"

definition extractResults :: "nat \<Rightarrow> json \<Rightarrow> js_exn + search_result list" where
  "extractResults maxResults data =
     (if data = JNull then Inl (Exn ''TypeError'')
      else (case optProp (getProp data ''web'') ''results'' of
              None \<Rightarrow> Inr []
            | Some rs \<Rightarrow>
                (if \<not> truthy rs then Inr []
                 else (case rs of
                         JArr xs \<Rightarrow> mapResults (take maxResults xs)
                       | _ \<Rightarrow> Inl (Exn ''TypeError'')))))"

text \<open>
  The retry loop of \<open>braveSearch\<close>.  \<open>fetch\<close> gives the outcome of the request of each attempt
  (\<open>Inl\<close>: the request itself throws).
\<close>

function braveLoop ::
  "(string \<Rightarrow> nat \<Rightarrow> js_exn + response) \<Rightarrow> nat \<Rightarrow> string \<Rightarrow> nat
     \<Rightarrow> (js_exn + search_result list) \<times> search_event list" where
  "braveLoop fetch maxResults cleaned attempt =
     (if attempt \<le> MAX_RETRIES then
        (let waited = (if 0 < attempt then [Sleep (BASE_DELAY_MS * 2 ^ (attempt - 1))] else [])
         in case fetch cleaned attempt of
              Inl e \<Rightarrow> (Inl e, waited @ [BraveFetch cleaned attempt])
            | Inr resp \<Rightarrow>
                (if status resp = 429 \<and> attempt < MAX_RETRIES then
                   (let (r, evs) = braveLoop fetch maxResults cleaned (Suc attempt)
                    in (r, waited @ [BraveFetch cleaned attempt] @ evs))
                 else if \<not> ok resp then (Inr [], waited @ [BraveFetch cleaned attempt])
                 else (case jsonBody resp of
                         Inl e \<Rightarrow> (Inl e, waited @ [BraveFetch cleaned attempt])
                       | Inr data \<Rightarrow>
                           (extractResults maxResults data,
                            waited @ [BraveFetch cleaned attempt]))))
      else (Inr [], []))"
  by pat_completeness auto
termination
  by (relation "measure (\<lambda>(fetch, maxResults, cleaned, attempt). Suc MAX_RETRIES - attempt)")
     auto

definition braveSearch ::
  "string \<Rightarrow> nat \<Rightarrow> (string \<Rightarrow> nat \<Rightarrow> js_exn + response) \<Rightarrow> json
     \<Rightarrow> (js_exn + search_result list) \<times> search_event list" where
  "braveSearch apiKey maxResults fetch query =
     (if apiKey = [] then (Inr [], [])
      else (case sanitizeQuery query of
              Inl e \<Rightarrow> (Inl e, [])
            | Inr cleaned \<Rightarrow>
                (if cleaned = [] then (Inr [], [])
                 else braveLoop fetch maxResults cleaned 0)))"

text \<open>
  \<open>search\<close> of \<open>createSearchTools\<close>.  Its state is \<open>lastSearchMs\<close>; \<open>now\<close> and \<open>resumed\<close> are
  the two readings of \<open>Date.now()\<close>, before and after the pacing sleep.  The result carries
  the new \<open>lastSearchMs\<close>.  The \<open>catch\<close> turns every throw into no results.
\<close>

definition pacingWait :: "int \<Rightarrow> int \<Rightarrow> int option" where
  "pacingWait lastSearchMs now =
     (let elapsed = now - lastSearchMs
      in if elapsed < BASE_DELAY_MS then Some (BASE_DELAY_MS - elapsed) else None)"

definition search ::
  "string \<Rightarrow> nat \<Rightarrow> (string \<Rightarrow> nat \<Rightarrow> js_exn + response) \<Rightarrow> int \<Rightarrow> int \<Rightarrow> int \<Rightarrow> json
     \<Rightarrow> ((js_exn + search_result list) \<times> int) \<times> search_event list" where
  "search apiKey maxResults fetch lastSearchMs now resumed query =
     (let paced = (case pacingWait lastSearchMs now of None \<Rightarrow> [] | Some ms \<Rightarrow> [Sleep ms])
      in case braveSearch apiKey maxResults fetch query of
           (Inl e, evs) \<Rightarrow> ((Inr [], resumed), paced @ evs)
         | (Inr results, evs) \<Rightarrow> ((Inr results, resumed), paced @ evs))"














text \<open>
  What the parser keeps true while it reads an object: the outermost open container is an
  object and the parse is not finished, or the stack is empty and the finished value is an
  object.
\<close>

fun objectOutermost :: "mode \<Rightarrow> frame list \<Rightarrow> bool" where
  "objectOutermost (Finished (JObj kvs)) [] = True"
| "objectOutermost (Finished v) st = False"
| "objectOutermost m [] = False"
| "objectOutermost m (f # st) = (case last (f # st) of InObject kvs k \<Rightarrow> True | InArray xs \<Rightarrow> False)"

section \<open>Reading the log\<close>

fun sleeps :: "search_event list \<Rightarrow> int list" where
  "sleeps [] = []"
| "sleeps (Sleep ms # evs) = ms # sleeps evs"
| "sleeps (BraveFetch q a # evs) = sleeps evs"

fun fetches :: "search_event list \<Rightarrow> nat list" where
  "fetches [] = []"
| "fetches (Sleep ms # evs) = fetches evs"
| "fetches (BraveFetch q a # evs) = a # fetches evs"


fun isDispatch :: "event \<Rightarrow> bool" where
  "isDispatch (SearchCall q) = True"
| "isDispatch (ReadCall u) = True"
| "isDispatch e = False"

fun isLogStep :: "event \<Rightarrow> bool" where
  "isLogStep (LogStep n) = True"
| "isLogStep e = False"

fun isChatCall :: "event \<Rightarrow> bool" where
  "isChatCall (ChatCall ms t) = True"
| "isChatCall e = False"

fun isUpload :: "event \<Rightarrow> bool" where
  "isUpload (UploadRequest u b) = True"
| "isUpload e = False"

section \<open>Concrete runs\<close>

text \<open>A configuration with nothing behind it: no search tools, no images, every outside
  call failing.  The runs below change the fields they need.\<close>

definition offline :: llm where
  "offline =
     \<lparr>completionsCreate = (\<lambda>messages t. Inl (Exn ''offline'')),
      searchTools = None,
      maxResearchSteps = 6,
      canGenerateImages = False,
      imgBackend = OpenAICompat,
      imgClient = None,
      renderClient = None,
      imageStoreURL = None,
      fetchImagen = (\<lambda>d. Inl (Exn ''offline'')),
      bufferFrom = (\<lambda>v. Inl (Exn ''offline'')),
      fetchUpload = (\<lambda>u b. Inl (Exn ''offline''))\<rparr>"

definition emptyTools :: tools where
  "emptyTools = \<lparr>searchFn = (\<lambda>q. Inr []), fetchPageFn = (\<lambda>u. Inr ''(No readable content)'')\<rparr>"

text \<open>A model that gives the same answer to every request, with search tools that find
  nothing.\<close>

definition answering :: "string \<Rightarrow> llm" where
  "answering reply =
     offline\<lparr>completionsCreate := (\<lambda>messages t. Inr (Some reply)),
             searchTools := Some emptyTools\<rparr>"

text \<open>A model that answers every request with a search command, and a budget of two
  steps.\<close>

definition alwaysSearch :: llm where
  \<open>alwaysSearch =
     offline\<lparr>completionsCreate := (\<lambda>messages t. Inr (Some ''{"action":"search","query":"cats"}'')),
             searchTools := Some emptyTools,
             maxResearchSteps := 2\<rparr>\<close>

text \<open>A model that finishes at once with a summary of 1600 characters.\<close>

definition longSummary :: string where
  "longSummary = replicate 1600 (CHR ''x'')"

definition longReply :: string where
  \<open>longReply = ''{"action":"done","summary":"'' @ longSummary @ ''"}''\<close>

definition longCommand :: json where
  "longCommand = JObj [(''action'', JStr ''done''), (''summary'', JStr longSummary)]"

definition longDone :: llm where
  "longDone =
     offline\<lparr>completionsCreate := (\<lambda>messages t. Inr (Some longReply)),
             searchTools := Some emptyTools\<rparr>"

text \<open>A model whose command names an action the agent does not know, and which answers the
  step-limit message with a summary.\<close>

definition givesUp :: llm where
  \<open>givesUp =
     offline\<lparr>completionsCreate :=
               (\<lambda>messages t. if last messages = StepLimitMsg
                                then Inr (Some ''{"summary":"nothing found"}'')
                                else Inr (Some ''{"action":"think"}'')),
             searchTools := Some emptyTools\<rparr>\<close>

text \<open>The scenario of the specification for \<open>chooseVote\<close>: two options, and a model that
  answers \<open>blue\<close>.  No search tools: the research phase is skipped.\<close>

definition redBlue :: "survey_option list" where
  "redBlue = [\<lparr>key = ''a'', label = ''Red''\<rparr>, \<lparr>key = ''b'', label = ''Blue''\<rparr>]"

definition colours :: survey where
  "colours = \<lparr>title = ''Colours'', question = ''Which colour?''\<rparr>"

definition saysBlue :: llm where
  "saysBlue = offline\<lparr>completionsCreate := (\<lambda>messages t. Inr (Some ''blue''))\<rparr>"

text \<open>A model whose suggestion asks for an image, with image generation unavailable; the
  reply is the scenario of the specification with \<open>wantsImage\<close> set.\<close>

definition wantsPicture :: llm where
  \<open>wantsPicture =
     offline\<lparr>completionsCreate :=
               (\<lambda>messages t. Inr (Some
                  ''ok here's one: {"label":"Add dark mode","wantsImage":true,"imageDescription":"a moon"}''))\<rparr>\<close>

text \<open>The native-REST image backend with a working endpoint and no store configured; and
  the same with a store.\<close>

definition imagenReply :: response where
  "imagenReply =
     \<lparr>status = 200, textBody = Inr [],
      jsonBody = Inr (JObj [(''predictions'',
                             JArr [JObj [(''bytesBase64Encoded'', JStr ''iVBORw0KGgo='')]])])\<rparr>"

definition storeReply :: response where
  "storeReply =
     \<lparr>status = 200, textBody = Inr [],
      jsonBody = Inr (JObj [(''url'', JStr ''http://localhost:8001/images/1.png'')])\<rparr>"

definition geminiNoStore :: llm where
  "geminiNoStore =
     offline\<lparr>canGenerateImages := True,
             imgBackend := GeminiNative,
             fetchImagen := (\<lambda>d. Inr imagenReply),
             bufferFrom := (\<lambda>v. Inr ''bytes''),
             fetchUpload := (\<lambda>u b. Inr storeReply)\<rparr>"

definition geminiWithStore :: llm where
  "geminiWithStore = geminiNoStore\<lparr>imageStoreURL := Some ''http://localhost:8001''\<rparr>"

text \<open>A compatible image backend whose request throws.\<close>

definition brokenImages :: llm where
  "brokenImages =
     offline\<lparr>canGenerateImages := True,
             imgClient := Some (\<lambda>prompt. Inl (Exn ''connect ECONNREFUSED''))\<rparr>"

text \<open>A search endpoint that answers every request with 429, one that is down, and one that
  answers with a server error.\<close>

definition rateLimited :: "string \<Rightarrow> nat \<Rightarrow> js_exn + response" where
  "rateLimited q attempt = Inr \<lparr>status = 429, textBody = Inr ''Too Many Requests'', jsonBody = Inl (Exn ''SyntaxError'')\<rparr>"

definition unreachable :: "string \<Rightarrow> nat \<Rightarrow> js_exn + response" where
  "unreachable q attempt = Inl (Exn ''fetch failed'')"






text \<open>Replies to the command parser: a command whose action is an object with a key
  \<open>toString\<close>; an object whose only key is \<open>"action\<close> (the quote
  escaped in the JSON text); a search command whose query holds a brace, bare and after
  leading prose; a plain search command, bare, after prose and in a code fence.\<close>

definition objectAction :: string where
  \<open>objectAction = ''{"action":{"toString":1}}''\<close>

definition escapedKey :: string where
  \<open>escapedKey = ''{"'' @ [CHR 0x5C] @ ''"action":"v"}''\<close>

definition bracedQuery :: string where
  \<open>bracedQuery = ''{"action":"search","query":"a}b"}''\<close>

definition plainSearch :: string where
  \<open>plainSearch = ''{"action":"search","query":"cats"}''\<close>

text \<open>A reply in a markdown code fence: the opening fence with its language tag on a line
  of its own, the reply, the closing fence on a line of its own.\<close>

definition wrapFence :: "string \<Rightarrow> string \<Rightarrow> string" where
  "wrapFence lang t = ''```'' @ lang @ [CHR 0x0A] @ t @ [CHR 0x0A] @ ''```''"

section \<open>Verification\<close>

subsection \<open>The reference parser\<close>

text \<open>The lexer always moves forward: the tests on the lengths in \<open>lexJson\<close> never fail.\<close>

lemma lexString_shorter:
  "lexString cs = Some (s, r) \<Longrightarrow> length r \<le> length cs"
proof (induction "length cs" arbitrary: cs s r rule: less_induct)
  case less
  from less.prems obtain c cs' where cs: "cs = c # cs'" by (cases cs) auto
  have ih: "length r' \<le> length xs"
    if "lexString xs = Some (s', r')" "length xs < length cs" for xs s' r'
    using less.hyps [OF that(2) that(1)] .
  show ?case
  proof (cases "c = CHR 0x22")
    case True
    with less.prems cs show ?thesis by simp
  next
    case nq: False
    show ?thesis
    proof (cases "c = CHR 0x5C")
      case False
      with nq less.prems cs obtain s' where "lexString cs' = Some (s', r)"
        by (auto split: if_splits)
      from ih [OF this] cs show ?thesis by simp
    next
      case bs: True
      with nq less.prems cs obtain e es where es: "cs' = e # es" by (cases cs') auto
      show ?thesis
      proof (cases "e = CHR ''u''")
        case False
        with nq bs cs es less.prems obtain s' where "lexString es = Some (s', r)"
          by (auto split: option.splits)
        from ih [OF this] cs es show ?thesis by simp
      next
        case u: True
        with nq bs cs es less.prems obtain h1 h2 h3 h4 rest where
          hs: "es = h1 # h2 # h3 # h4 # rest"
          by (auto split: list.splits)
        with nq bs cs es u less.prems obtain s' where "lexString rest = Some (s', r)"
          by (auto split: option.splits if_splits)
        from ih [OF this] cs es hs show ?thesis by simp
      qed
    qed
  qed
qed

lemma lexNumber_shorter:
  "lexNumber s = Some (n, r) \<Longrightarrow> length r < length s"
proof -
  assume a: "lexNumber s = Some (n, r)"
  define body where "body = (if prefix ''-'' s then drop 1 s else s)"
  from a have ds: "takeWhile isDigit body \<noteq> []" and r: "r = dropWhile isDigit body"
    by (auto simp: lexNumber_def Let_def body_def split: if_splits)
  have "length (takeWhile isDigit body) + length (dropWhile isDigit body) = length body"
    by (metis length_append takeWhile_dropWhile_id)
  with ds r have "length r < length body" by (cases "takeWhile isDigit body") auto
  moreover have "length body \<le> length s" by (simp add: body_def)
  ultimately show ?thesis by simp
qed

text \<open>A string with no quote, backslash or control character is read up to its closing quote.\<close>

lemma lexString_plain:
  "\<forall>c \<in> set s. c \<noteq> CHR 0x22 \<and> c \<noteq> CHR 0x5C \<and> 32 \<le> (of_char c :: nat) \<Longrightarrow>
   lexString (s @ CHR 0x22 # rest) = Some (s, rest)"
  by (induction s) auto

subsection \<open>The command parser\<close>

lemma execAction_occurs:
  "execAction s = Some m \<Longrightarrow> (\<exists>m'. m = CHR ''{'' # m') \<and> (\<exists>i. prefix m (drop i s))"
proof (induction s)
  case Nil
  then show ?case by simp
next
  case (Cons c cs)
  show ?case
  proof (cases "c = CHR ''{'' \<and> matchBody cs \<noteq> None")
    case True
    then obtain n where "matchBody cs = Some n" by auto
    with True Cons.prems have m: "m = c # take n cs" by simp
    then have "prefix m (drop 0 (c # cs))" by (simp add: take_is_prefix)
    with m True show ?thesis by blast
  next
    case False
    with Cons.prems have "execAction cs = Some m" by (auto split: if_splits option.splits)
    with Cons.IH obtain i where "(\<exists>m'. m = CHR ''{'' # m')" "prefix m (drop i cs)" by blast
    then have "prefix m (drop (Suc i) (c # cs))" by simp
    with \<open>\<exists>m'. m = CHR ''{'' # m'\<close> show ?thesis by blast
  qed
qed

lemma indexOf_finds:
  "prefix m (drop i s) \<Longrightarrow> \<exists>j. indexOf s m = Some j \<and> prefix m (drop j s)"
proof (induction s arbitrary: i)
  case Nil
  then show ?case by simp
next
  case (Cons c cs)
  show ?case
  proof (cases "prefix m (c # cs)")
    case True
    then show ?thesis by (auto intro: exI [of _ 0])
  next
    case False
    with Cons.prems obtain i' where "i = Suc i'" by (cases i) auto
    with Cons.prems have "prefix m (drop i' cs)" by simp
    with Cons.IH obtain j where "indexOf cs m = Some j" "prefix m (drop j cs)" by blast
    with False show ?thesis by (auto intro: exI [of _ "Suc j"])
  qed
qed

lemma walkBraces_bounds:
  "walkBraces d s = Some n \<Longrightarrow> 0 < n \<and> n \<le> length s"
  by (induction s arbitrary: d n) (auto simp: Let_def split: if_splits)

text \<open>When the scan returns a value, it is what \<open>JSON.parse\<close> gave for a slice of the cleaned
  text that begins with \<open>{\<close>.\<close>

lemma scanCommand_slice:
  assumes "scanCommand P cleaned \<noteq> JNull"
  shows "\<exists>start n. P (take n (drop start cleaned)) = Some (scanCommand P cleaned) \<and>
                  prefix ''{'' (take n (drop start cleaned))"
proof -
  from assms obtain m where m: "execAction cleaned = Some m"
    by (auto simp: scanCommand_def split: option.splits)
  from execAction_occurs [OF m] obtain m' i where
    m': "m = CHR ''{'' # m'" and "prefix m (drop i cleaned)" by blast
  from indexOf_finds [OF this(2)] obtain start where
    start: "indexOf cleaned m = Some start" and at: "prefix m (drop start cleaned)" by blast
  from assms m start obtain n where n: "walkBraces 0 (drop start cleaned) = Some n"
    by (auto simp: scanCommand_def split: option.splits)
  from assms m start n have
    p: "P (take n (drop start cleaned)) = Some (scanCommand P cleaned)"
    by (auto simp: scanCommand_def split: option.splits)
  from walkBraces_bounds [OF n] have "0 < n" by simp
  moreover from at m' obtain rest where "drop start cleaned = CHR ''{'' # rest"
    by (auto simp: prefix_def)
  ultimately have "prefix ''{'' (take n (drop start cleaned))"
    by (cases n) simp_all
  with p show ?thesis by blast
qed


text \<open>The reference parser gives an object for a text that begins with \<open>{\<close>, or
  nothing.\<close>

lemma objectOutermost_open':
  "(\<forall>v. m \<noteq> Finished v) \<Longrightarrow>
   objectOutermost m st = (st \<noteq> [] \<and> (\<exists>kvs k. last st = InObject kvs k))"
  by (cases m; cases st) (auto split: frame.splits)

lemma complete_objectOutermost:
  assumes "st \<noteq> []" and "\<exists>kvs k. last st = InObject kvs k" and "completeValue v st = (m, st')"
  shows "objectOutermost m st'"
proof -
  from assms(1) obtain f rest where st: "st = f # rest" by (cases st) auto
  show ?thesis
  proof (cases f)
    case (InArray xs)
    with st assms show ?thesis by (auto simp: objectOutermost_open' split: if_splits)
  next
    case (InObject kvs k)
    with st assms show ?thesis by (auto simp: objectOutermost_open' split: if_splits)
  qed
qed

lemma close_objectOutermost:
  assumes "\<exists>kvs k. last (f # st) = InObject kvs k" and "completeValue v st = (m, st')"
    and "st = [] \<Longrightarrow> \<exists>kvs. v = JObj kvs"
  shows "objectOutermost m st'"
proof (cases st)
  case Nil
  with assms show ?thesis by auto
next
  case (Cons g rest)
  with assms(1) have "\<exists>kvs k. last st = InObject kvs k" by simp
  with Cons assms(2) complete_objectOutermost [of st v m st'] show ?thesis by simp
qed

lemma startValue_objectOutermost:
  assumes "st \<noteq> []" and "\<exists>kvs k. last st = InObject kvs k" and "startValue t st = Some (m, st')"
  shows "objectOutermost m st'"
  using assms complete_objectOutermost [of st _ m st']
  by (cases t) (auto simp: objectOutermost_open')

lemma readKey_objectOutermost:
  assumes "st \<noteq> []" and "\<exists>kvs k. last st = InObject kvs k" and "readKey t st = Some (m, st')"
  shows "objectOutermost m st'"
  using assms
  by (cases "(t, st)" rule: readKey.cases) (auto simp: objectOutermost_open' split: if_splits)

lemma parseStep_objectOutermost:
  assumes "objectOutermost m st" and "parseStep m st t = Some (m', st')"
  shows "objectOutermost m' st'"
proof (cases "\<exists>v. m = Finished v")
  case True
  with assms(2) show ?thesis by auto
next
  case False
  with assms(1) have ne: "st \<noteq> []" and obj: "\<exists>kvs k. last st = InObject kvs k"
    by (simp_all add: objectOutermost_open')
  from ne obtain f rest where st: "st = f # rest" by (cases st) auto
  note sv = startValue_objectOutermost [OF ne obj, of t m' st']
  note rk = readKey_objectOutermost [OF ne obj, of t m' st']
  have cl: "objectOutermost m' st'"
    if "completeValue v rest = (m', st')" "rest = [] \<Longrightarrow> \<exists>kvs. v = JObj kvs" for v
    using close_objectOutermost [of f rest v m' st'] obj st that by simp
  have same: "objectOutermost mode st" if "\<forall>v. mode \<noteq> Finished v" for mode
    using that ne obj by (simp add: objectOutermost_open')
  show ?thesis
  proof (cases m)
    case WantValue
    with assms(2) sv show ?thesis by simp
  next
    case WantValueOrClose
    show ?thesis
    proof (cases "(\<exists>xs. f = InArray xs) \<and> t = TRBracket")
      case True
      then obtain xs where f: "f = InArray xs" and t: "t = TRBracket" by blast
      with obj st have "rest \<noteq> []" by auto
      with cl [of "JArr (rev xs)"] assms(2) WantValueOrClose st f t show ?thesis by simp
    next
      case False
      with assms(2) WantValueOrClose st have "startValue t st = Some (m', st')"
        by (cases f; cases t) simp_all
      with sv show ?thesis by simp
    qed
  next
    case WantKeyOrClose
    show ?thesis
    proof (cases "(\<exists>kvs k. f = InObject kvs k) \<and> t = TRBrace")
      case True
      then obtain kvs k where f: "f = InObject kvs k" and t: "t = TRBrace" by blast
      with cl [of "JObj (rev kvs)"] assms(2) WantKeyOrClose st show ?thesis by simp
    next
      case False
      with assms(2) WantKeyOrClose st have "readKey t st = Some (m', st')"
        by (cases f; cases t) simp_all
      with rk show ?thesis by simp
    qed
  next
    case WantKey
    with assms(2) rk show ?thesis by simp
  next
    case WantColon
    with assms(2) have "m' = WantValue \<and> st' = st" by (cases t) simp_all
    with same [of WantValue] show ?thesis by simp
  next
    case WantCommaOrClose
    show ?thesis
    proof (cases f)
      case (InArray xs)
      with obj st have r: "rest \<noteq> []" by auto
      from assms(2) WantCommaOrClose st InArray consider
          "t = TComma" "m' = WantValue" "st' = st"
        | "t = TRBracket" "completeValue (JArr (rev xs)) rest = (m', st')"
        by (cases t) auto
      then show ?thesis
      proof cases
        case 1
        with same [of WantValue] show ?thesis by simp
      next
        case 2
        with cl [of "JArr (rev xs)"] r show ?thesis by simp
      qed
    next
      case (InObject kvs k)
      from assms(2) WantCommaOrClose st InObject consider
          "t = TComma" "m' = WantKey" "st' = st"
        | "t = TRBrace" "completeValue (JObj (rev kvs)) rest = (m', st')"
        by (cases t) auto
      then show ?thesis
      proof cases
        case 1
        with same [of WantKey] show ?thesis by simp
      next
        case 2
        with cl [of "JObj (rev kvs)"] show ?thesis by simp
      qed
    qed
  next
    case (Finished v)
    with False show ?thesis by simp
  qed
qed

lemma parseRun_object:
  "objectOutermost m st \<Longrightarrow> parseRun m st ts = Some v \<Longrightarrow> \<exists>kvs. v = JObj kvs"
proof (induction ts arbitrary: m st)
  case Nil
  then show ?case
    by (cases "(m, st)" rule: objectOutermost.cases) (auto split: frame.splits)
next
  case (Cons t ts)
  from Cons.prems(2) obtain m' st' where
    s: "parseStep m st t = Some (m', st')" and r: "parseRun m' st' ts = Some v"
    by (auto split: option.splits)
  from parseStep_objectOutermost [OF Cons.prems(1) s] Cons.IH r show ?case by blast
qed

lemma JSON_parse_brace_object:
  assumes "JSON_parse (CHR ''{'' # s) = Some v"
  shows "\<exists>kvs. v = JObj kvs"
proof -
  from assms obtain ts where "lexJson s = Some ts" and "parseRun WantValue [] (TLBrace # ts) = Some v"
    by (auto simp: JSON_parse_def split: option.splits)
  then have "parseRun WantKeyOrClose [InObject [] []] ts = Some v" by simp
  moreover have "objectOutermost WantKeyOrClose [InObject [] []]" by simp
  ultimately show ?thesis by (rule parseRun_object [rotated])
qed


text \<open>
  For every input string and every behaviour of \<open>JSON.parse\<close> the parser returns (it is a
  total function, and both \<open>try\<close> blocks catch all), and its result is \<open>null\<close>, or the parse
  of the whole cleaned text when that is truthy with a truthy \<open>action\<close>, or the parse of a
  slice of the cleaned text that begins with \<open>{\<close>.
\<close>

lemma parseJsonCommand_outcomes:
  "parseJsonCommand P text = JNull \<or>
   (P (cleanReply text) = Some (parseJsonCommand P text) \<and> truthy (parseJsonCommand P text) \<and>
    truthyU (getProp (parseJsonCommand P text) ''action'')) \<or>
   (\<exists>start n. P (take n (drop start (cleanReply text))) = Some (parseJsonCommand P text) \<and>
              prefix ''{'' (take n (drop start (cleanReply text))))"
proof (cases "text = []")
  case True
  then show ?thesis by (simp add: parseJsonCommand_def)
next
  case False
  show ?thesis
  proof (cases "\<exists>full. P (cleanReply text) = Some full \<and> truthy full \<and>
                       truthyU (getProp full ''action'')")
    case True
    with False show ?thesis by (auto simp: parseJsonCommand_def Let_def)
  next
    case whole: False
    with False have eq: "parseJsonCommand P text = scanCommand P (cleanReply text)"
      by (auto simp: parseJsonCommand_def Let_def split: option.splits)
    show ?thesis
    proof (cases "scanCommand P (cleanReply text) = JNull")
      case True
      with eq show ?thesis by simp
    next
      case False
      from scanCommand_slice [OF False] eq show ?thesis by simp
    qed
  qed
qed

text \<open>So with a \<open>JSON.parse\<close> that gives an object for every text beginning with \<open>{\<close> that
  it accepts, as the reference parser does, the result is \<open>null\<close> or an object.\<close>

lemma parseJsonCommand_object:
  assumes "\<And>s v. P (CHR ''{'' # s) = Some v \<Longrightarrow> \<exists>kvs. v = JObj kvs"
  shows "parseJsonCommand P text = JNull \<or> (\<exists>kvs. parseJsonCommand P text = JObj kvs)"
proof (cases "parseJsonCommand P text = JNull")
  case True
  then show ?thesis by simp
next
  case False
  with parseJsonCommand_outcomes [of P "text"] consider
      "truthyU (getProp (parseJsonCommand P text) ''action'')"
    | s where "P (CHR ''{'' # s) = Some (parseJsonCommand P text)"
    by (auto simp: prefix_def)
  then show ?thesis
  proof cases
    case 1
    then show ?thesis by (cases "parseJsonCommand P text") simp_all
  next
    case 2
    then show ?thesis using assms by blast
  qed
qed

lemma parseJsonCommand_reference_object:
  "parseJsonCommand JSON_parse text = JNull \<or> (\<exists>kvs. parseJsonCommand JSON_parse text = JObj kvs)"
  by (rule parseJsonCommand_object) (rule JSON_parse_brace_object)

text \<open>A plain command is parsed to its object; a reply that is no command gives \<open>null\<close>.\<close>

lemma plainSearch_parsed:
  "parseJsonCommand JSON_parse plainSearch =
     JObj [(''action'', JStr ''search''), (''query'', JStr ''cats'')]"
  "parseJsonCommand JSON_parse ''I cannot help with that.'' = JNull"
  by code_simp+

text \<open>
  \<^bold>\<open>C2.\<close>  The claim is that the parser returns an object carrying an \<open>action\<close>, or \<open>null\<close>.
  The first path of the parser keeps to it, \<open>if (full && full.action) return full\<close>; the
  second path returns \<open>JSON.parse\<close> of the slice it found without that test.  The reply
  \<open>{"\"action":"v"}\<close> is an object whose only key is \<open>"action\<close>, with the quote.  It parses
  as a whole and has no \<open>action\<close>, so the first path passes it by; it matches the search
  expression of the second path, the brace walk ends at its last character, and the slice,
  which is the whole text, is returned as parsed: an object with no \<open>action\<close>.  In the
  research loop such a reply is not \<open>null\<close>, so on the first step it is not nudged as an
  unparsable reply is: the run ends at once with the reply as its summary.
\<close>

theorem parseJsonCommand_object_without_action:
  "parseJsonCommand JSON_parse escapedKey = JObj [(CHR 0x22 # ''action'', JStr ''v'')] \<and>
   parseJsonCommand JSON_parse escapedKey \<noteq> JNull \<and>
   getProp (parseJsonCommand JSON_parse escapedKey) ''action'' = None \<and>
   research JSON_parse (answering escapedKey) ''topic'' =
     (Inr escapedKey, [LogStep 0, ChatCall [ResearchSystem, ResearchUser ''topic''] (3 / 10)])"
  by code_simp

text \<open>A reply that gives \<open>null\<close> is nudged on the first step: the model is asked again.\<close>

lemma unparsable_reply_nudged:
  "parseJsonCommand JSON_parse ''I cannot help with that.'' = JNull \<and>
   research JSON_parse (answering ''I cannot help with that.'') ''topic'' =
     (Inr ''I cannot help with that.'',
      [LogStep 0,
       ChatCall [ResearchSystem, ResearchUser ''topic''] (3 / 10),
       ChatCall [ResearchSystem, ResearchUser ''topic'',
                 Assistant ''I cannot help with that.'', Nudge] (2 / 10)])"
  by code_simp

text \<open>Code fences and leading prose.\<close>

lemma isSpace_simps [simp]:
  "isSpace (CHR 0x0A)" "\<not> isSpace (CHR ''`'')" "\<not> isSpace (CHR ''{'')" "\<not> isSpace (CHR ''}'')"
  by (simp_all add: isSpace_def)

lemma stripFenceOpen_fence:
  "stripFenceOpen (''```'' @ r) =
     stripFenceOpen (dropWhile isSpace (if toLowerCase (take 4 r) = ''json'' then drop 4 r else r))"
  by (simp add: Let_def)

lemma stripFenceOpen_other:
  "\<not> prefix ''```'' (c # cs) \<Longrightarrow> stripFenceOpen (c # cs) = c # stripFenceOpen cs"
  by (simp only: stripFenceOpen.simps(2) if_False)

lemma stripFenceOpen_empty_fence: "stripFenceOpen ''```'' = []"
  using stripFenceOpen_fence [of "[]"] by (simp add: toLowerCase_def)

declare stripFenceOpen.simps(2) [simp del]

lemma stripFenceOpen_leading_space:
  "stripFenceOpen t = takeWhile isSpace t @ stripFenceOpen (dropWhile isSpace t)"
proof (induction t)
  case Nil
  then show ?case by simp
next
  case (Cons c cs)
  show ?case
  proof (cases "isSpace c")
    case True
    then have "c \<noteq> CHR ''`''" by auto
    then have "\<not> prefix ''```'' (c # cs)" by simp
    with True Cons stripFenceOpen_other [of c cs] show ?thesis by simp
  next
    case False
    then show ?thesis by simp
  qed
qed

lemma toLowerCase_json_length: "toLowerCase x = ''json'' \<Longrightarrow> length x = 4"
  by (auto simp: toLowerCase_def dest!: arg_cong [where f = length])

lemma take4_newline_not_json:
  assumes "length r < 4"
  shows "toLowerCase (take 4 (r @ CHR 0x0A # rest)) \<noteq> ''json''"
proof
  assume a: "toLowerCase (take 4 (r @ CHR 0x0A # rest)) = ''json''"
  from assms have "take 4 (r @ CHR 0x0A # rest) ! length r = CHR 0x0A"
    by (simp add: nth_append)
  moreover from assms have "length r < length (take 4 (r @ CHR 0x0A # rest))" by simp
  ultimately have "toLowerCase (take 4 (r @ CHR 0x0A # rest)) ! length r = lowerChar (CHR 0x0A)"
    by (simp add: toLowerCase_def del: take_append)
  with a have n: "''json'' ! length r = CHR 0x0A" by (simp add: lowerChar_def)
  from assms consider "length r = 0" | "length r = 1" | "length r = 2" | "length r = 3"
    by linarith
  then show False using n by cases simp_all
qed

lemma stripFenceOpen_closing_fence:
  "stripFenceOpen (u @ CHR 0x0A # ''```'') = stripFenceOpen u \<or>
   stripFenceOpen (u @ CHR 0x0A # ''```'') = stripFenceOpen u @ [CHR 0x0A]"
proof (induction u rule: stripFenceOpen.induct)
  case 1
  have "\<not> prefix ''```'' (CHR 0x0A # ''```'')" by simp
  from stripFenceOpen_other [OF this] show ?case
    by (simp add: stripFenceOpen_empty_fence)
next
  case (2 c cs)
  let ?B = "CHR 0x0A # ''```''"
  show ?case
  proof (cases "prefix ''```'' (c # cs)")
    case False
    then have "\<not> prefix ''```'' (c # (cs @ ?B))"
      by (cases cs; cases "tl cs") auto
    from stripFenceOpen_other [OF this] stripFenceOpen_other [OF False] 2(2) [OF False]
    show ?thesis by auto
  next
    case True
    then obtain r where u: "c # cs = ''```'' @ r" by (auto simp: prefix_def)
    then have r: "r = drop 3 (c # cs)" by simp
    define r' where "r' = (if toLowerCase (take 4 r) = ''json'' then drop 4 r else r)"
    have rB: "(if toLowerCase (take 4 (r @ ?B)) = ''json'' then drop 4 (r @ ?B) else r @ ?B)
                = r' @ ?B"
    proof (cases "toLowerCase (take 4 r) = ''json''")
      case True
      then have "length (take 4 r) = 4" by (rule toLowerCase_json_length)
      then have "4 \<le> length r" by simp
      with True show ?thesis by (simp add: r'_def)
    next
      case False
      have "toLowerCase (take 4 (r @ ?B)) \<noteq> ''json''"
      proof (cases "4 \<le> length r")
        case True
        with False show ?thesis by simp
      next
        case False
        then show ?thesis using take4_newline_not_json [of r "''```''"] by simp
      qed
      with False show ?thesis by (simp add: r'_def)
    qed
    have left: "stripFenceOpen ((c # cs) @ ?B) = stripFenceOpen (dropWhile isSpace (r' @ ?B))"
      using stripFenceOpen_fence [of "r @ ?B"] rB unfolding u by simp
    have right: "stripFenceOpen (c # cs) = stripFenceOpen (dropWhile isSpace r')"
      using stripFenceOpen_fence [of r] unfolding u r'_def by simp
    show ?thesis
    proof (cases "\<forall>x \<in> set r'. isSpace x")
      case all: True
      then have "dropWhile isSpace (r' @ ?B) = ''```''" "dropWhile isSpace r' = []"
        by (simp_all add: dropWhile_append)
      with left right show ?thesis by (simp add: stripFenceOpen_empty_fence)
    next
      case False
      then have d: "dropWhile isSpace (r' @ ?B) = dropWhile isSpace r' @ ?B"
        by (auto simp: dropWhile_append)
      have "stripFenceOpen (dropWhile isSpace r' @ ?B) = stripFenceOpen (dropWhile isSpace r') \<or>
          stripFenceOpen (dropWhile isSpace r' @ ?B) = stripFenceOpen (dropWhile isSpace r') @ [CHR 0x0A]"
        using 2(1) [OF True refl refl] unfolding r'_def r .
      with left right d show ?thesis by simp
    qed
  qed
qed


lemma removeFence_other:
  "a \<noteq> CHR ''`'' \<Longrightarrow> removeFence (a # rest) = a # removeFence rest"
  by (cases rest; cases "tl rest") auto

lemma removeFence_leading_space:
  "\<forall>x \<in> set ws. isSpace x \<Longrightarrow> removeFence (ws @ y) = ws @ removeFence y"
proof (induction ws)
  case Nil
  then show ?case by simp
next
  case (Cons a ws)
  then have "a \<noteq> CHR ''`''" by auto
  with Cons show ?case by (simp add: removeFence_other del: removeFence.simps)
qed

lemma removeFence_trailing_newline:
  "removeFence (y @ [CHR 0x0A]) = removeFence y @ [CHR 0x0A]"
  by (induction y rule: removeFence.induct) simp_all

lemma trim_leading_space:
  "\<forall>x \<in> set ws. isSpace x \<Longrightarrow> trim (ws @ y) = trim y"
  by (simp add: trim_def dropWhile_append)

lemma trim_trailing_space:
  assumes "\<forall>x \<in> set ws. isSpace x"
  shows "trim (y @ ws) = trim y"
proof (cases "\<forall>x \<in> set y. isSpace x")
  case True
  with assms have "dropWhile isSpace (y @ ws) = []" "dropWhile isSpace y = []"
    by (simp_all add: dropWhile_eq_Nil_conv)
  then show ?thesis by (simp only: trim_def)
next
  case False
  then have "dropWhile isSpace (y @ ws) = dropWhile isSpace y @ ws"
    by (auto simp: dropWhile_append)
  moreover from assms have "dropWhile isSpace (rev ws @ z) = dropWhile isSpace z" for z
    by (simp add: dropWhile_append)
  ultimately show ?thesis by (simp add: trim_def)
qed

lemma cleanReply_all_space:
  assumes "\<forall>x \<in> set t. isSpace x"
  shows "cleanReply t = []"
proof -
  from assms have "takeWhile isSpace t = t" "dropWhile isSpace t = []" by simp_all
  with stripFenceOpen_leading_space [of t] have "stripFenceOpen t = t" by simp
  moreover from removeFence_leading_space [OF assms, of "[]"] have "removeFence t = t" by simp
  ultimately show ?thesis
    using trim_leading_space [OF assms, of "[]"] by (simp add: cleanReply_def trim_def)
qed

lemma cleanReply_wrapFence:
  assumes "lang = [] \<or> toLowerCase lang = ''json''"
  shows "cleanReply (wrapFence lang t) = cleanReply t"
proof -
  let ?B = "CHR 0x0A # ''```''"
  let ?r = "lang @ CHR 0x0A # t @ ?B"
  have w: "wrapFence lang t = ''```'' @ ?r" by (simp add: wrapFence_def)
  have "(if toLowerCase (take 4 ?r) = ''json'' then drop 4 ?r else ?r) = ?r \<or>
        (if toLowerCase (take 4 ?r) = ''json'' then drop 4 ?r else ?r) = CHR 0x0A # t @ ?B"
  proof (cases "toLowerCase (take 4 ?r) = ''json''")
    case False
    then show ?thesis by simp
  next
    case True
    from assms show ?thesis
    proof
      assume "lang = []"
      with True take4_newline_not_json [of "[]" "t @ ?B"] show ?thesis by simp
    next
      assume "toLowerCase lang = ''json''"
      then have "length lang = 4" by (rule toLowerCase_json_length)
      with True show ?thesis by simp
    qed
  qed
  moreover have "dropWhile isSpace ?r = dropWhile isSpace (t @ ?B)"
    if "(if toLowerCase (take 4 ?r) = ''json'' then drop 4 ?r else ?r) = ?r"
  proof -
    from that have "toLowerCase (take 4 ?r) \<noteq> ''json'' \<or> drop 4 ?r = ?r" by (auto split: if_splits)
    moreover have "drop 4 ?r \<noteq> ?r"
      by (auto dest!: arg_cong [where f = length])
    ultimately have nj: "toLowerCase (take 4 ?r) \<noteq> ''json''" by simp
    from assms have "lang = []"
    proof
      assume "toLowerCase lang = ''json''"
      moreover from this have "length lang = 4" by (rule toLowerCase_json_length)
      ultimately have "toLowerCase (take 4 ?r) = ''json''" by simp
      with nj show ?thesis by simp
    qed
    then show ?thesis by simp
  qed
  ultimately have first:
    "stripFenceOpen (wrapFence lang t) = stripFenceOpen (dropWhile isSpace (t @ ?B))"
    using stripFenceOpen_fence [of ?r] unfolding w by auto
  show ?thesis
  proof (cases "\<forall>x \<in> set t. isSpace x")
    case True
    then have "dropWhile isSpace (t @ ?B) = ''```''" by (simp add: dropWhile_append)
    with first have "cleanReply (wrapFence lang t) = []"
      by (simp add: cleanReply_def stripFenceOpen_empty_fence trim_def)
    with cleanReply_all_space [OF True] show ?thesis by simp
  next
    case False
    let ?t' = "dropWhile isSpace t"
    let ?core = "removeFence (stripFenceOpen ?t')"
    from False have "dropWhile isSpace (t @ ?B) = ?t' @ ?B" by (auto simp: dropWhile_append)
    with first have f: "stripFenceOpen (wrapFence lang t) = stripFenceOpen (?t' @ ?B)" by simp
    have "cleanReply (wrapFence lang t) = trim ?core"
      using stripFenceOpen_closing_fence [of ?t'] f
        removeFence_trailing_newline [of "stripFenceOpen ?t'"]
        trim_trailing_space [of "[CHR 0x0A]" ?core]
      by (auto simp: cleanReply_def)
    moreover have "cleanReply t = trim ?core"
    proof -
      have sp: "\<forall>x \<in> set (takeWhile isSpace t). isSpace x"
        by (auto dest: set_takeWhileD)
      have "stripFenceOpen t = takeWhile isSpace t @ stripFenceOpen ?t'"
        by (rule stripFenceOpen_leading_space)
      then show ?thesis
        using removeFence_leading_space [OF sp, of "stripFenceOpen ?t'"]
          trim_leading_space [OF sp, of ?core]
        by (simp add: cleanReply_def)
    qed
    ultimately show ?thesis by simp
  qed
qed

lemma wrapFence_not_empty: "wrapFence lang t \<noteq> []"
  by (simp add: wrapFence_def)

lemma parseJsonCommand_wrapFence:
  assumes "t \<noteq> []" and "lang = [] \<or> toLowerCase lang = ''json''"
  shows "parseJsonCommand P (wrapFence lang t) = parseJsonCommand P t"
  using assms(1) cleanReply_wrapFence [OF assms(2), of t] wrapFence_not_empty [of lang t]
  by (simp add: parseJsonCommand_def)


lemma stripFenceOpen_no_backtick:
  "CHR ''`'' \<notin> set x \<Longrightarrow> stripFenceOpen x = x"
proof (induction x)
  case Nil
  then show ?case by simp
next
  case (Cons c cs)
  then have "\<not> prefix ''```'' (c # cs)" by auto
  from stripFenceOpen_other [OF this] Cons show ?case by simp
qed

lemma removeFence_no_backtick:
  "CHR ''`'' \<notin> set x \<Longrightarrow> removeFence x = x"
proof (induction x)
  case Nil
  then show ?case by simp
next
  case (Cons c cs)
  then have "c \<noteq> CHR ''`''" by auto
  from removeFence_other [OF this] Cons show ?case by simp
qed

lemma trim_prose:
  assumes "c \<noteq> []" and "\<not> isSpace (hd c)" and "\<not> isSpace (last c)"
  shows "trim (prose @ c) = dropWhile isSpace prose @ c"
proof -
  from assms(1,2) have "dropWhile isSpace c = c" by (cases c) simp_all
  then have d: "dropWhile isSpace (prose @ c) = dropWhile isSpace prose @ c"
    by (simp add: dropWhile_append)
  from assms(1,3) have "dropWhile isSpace (rev c @ z) = rev c @ z" for z
    by (cases c rule: rev_cases) simp_all
  with d show ?thesis by (simp add: trim_def)
qed

lemma execAction_after_prose:
  assumes "CHR ''{'' \<notin> set p" and "matchBody rest = Some n"
  shows "execAction (p @ CHR ''{'' # rest) = Some (CHR ''{'' # take n rest)"
  using assms by (induction p) auto

lemma indexOf_after_prose:
  assumes "CHR ''{'' \<notin> set p" and "prefix (CHR ''{'' # m) c"
  shows "indexOf (p @ c) (CHR ''{'' # m) = Some (length p)"
  using assms
proof (induction p)
  case Nil
  then show ?case by (cases c) auto
next
  case (Cons a p)
  then have "\<not> prefix (CHR ''{'' # m) (a # p @ c)" by auto
  with Cons show ?case by simp
qed

lemma walkBraces_closes:
  "0 < d \<Longrightarrow> walkBraces d s = Some (length s) \<Longrightarrow> s \<noteq> [] \<and> last s = CHR ''}''"
proof (induction s arbitrary: d)
  case Nil
  then show ?case by simp
next
  case (Cons c cs)
  let ?d2 = "(if c = CHR ''}'' then (if c = CHR ''{'' then d + 1 else d) - 1
              else (if c = CHR ''{'' then d + 1 else d))"
  show ?case
  proof (cases "?d2 = 0")
    case True
    with Cons.prems have "cs = []" by (simp add: Let_def)
    moreover from True Cons.prems(1) have "c = CHR ''}''" by (auto split: if_splits)
    ultimately show ?thesis by simp
  next
    case False
    with Cons.prems have w: "walkBraces ?d2 cs = Some (length cs)" by (auto simp: Let_def)
    from Cons.prems(1) False have "0 < ?d2" by (auto split: if_splits)
    from Cons.IH [OF this w] show ?thesis by simp
  qed
qed

lemma walkBraces_object_end:
  assumes "walkBraces 0 (CHR ''{'' # rest) = Some (length (CHR ''{'' # rest))"
  shows "rest \<noteq> [] \<and> last rest = CHR ''}''"
proof -
  from assms have "walkBraces 1 rest = Some (length rest)" by (auto simp: Let_def)
  then show ?thesis using walkBraces_closes [of 1 rest] by simp
qed

text \<open>A command text that the brace walk closes at its last character, and in which the
  search expression matches from the first character, is parsed the same with or without
  leading prose.\<close>

lemma scanCommand_after_prose:
  assumes "CHR ''{'' \<notin> set p" and "matchBody rest \<noteq> None"
    and "walkBraces 0 (CHR ''{'' # rest) = Some (length (CHR ''{'' # rest))"
  shows "scanCommand P (p @ CHR ''{'' # rest) =
           (case P (CHR ''{'' # rest) of None \<Rightarrow> JNull | Some v \<Rightarrow> v)"
proof -
  from assms(2) obtain n where n: "matchBody rest = Some n" by auto
  have "prefix (CHR ''{'' # take n rest) (CHR ''{'' # rest)" by (simp add: take_is_prefix)
  from indexOf_after_prose [OF assms(1) this]
  have i: "indexOf (p @ CHR ''{'' # rest) (CHR ''{'' # take n rest) = Some (length p)" .
  show ?thesis
    using execAction_after_prose [OF assms(1) n] i assms(3)
    by (simp add: scanCommand_def del: walkBraces.simps)
qed

lemma parseJsonCommand_after_prose:
  assumes "CHR ''{'' \<notin> set prose" and "CHR ''`'' \<notin> set (prose @ c)"
    and "c = CHR ''{'' # rest" and "matchBody rest \<noteq> None"
    and "walkBraces 0 c = Some (length c)"
    and "P (trim (prose @ c)) = None"
  shows "parseJsonCommand P (prose @ c) = parseJsonCommand P c \<and>
         parseJsonCommand P c = (case P c of None \<Rightarrow> JNull | Some v \<Rightarrow> v)"
proof -
  from assms(3,5) walkBraces_object_end [of rest] have e: "rest \<noteq> []" "last rest = CHR ''}''"
    by simp_all
  then have c: "c \<noteq> []" "\<not> isSpace (hd c)" "\<not> isSpace (last c)"
    using assms(3) by simp_all
  have clean: "cleanReply (q @ c) = dropWhile isSpace q @ c" if "CHR ''`'' \<notin> set (q @ c)" for q
    using that trim_prose [OF c, of q]
    by (simp add: cleanReply_def stripFenceOpen_no_backtick removeFence_no_backtick)
  have w: "walkBraces 0 (CHR ''{'' # rest) = Some (length (CHR ''{'' # rest))"
    using assms(3,5) by simp
  have scan: "scanCommand P (q @ c) = (case P c of None \<Rightarrow> JNull | Some v \<Rightarrow> v)"
    if "CHR ''{'' \<notin> set q" for q
    using scanCommand_after_prose [OF that assms(4) w] assms(3) by simp
  have bare: "parseJsonCommand P c = (case P c of None \<Rightarrow> JNull | Some v \<Rightarrow> v)"
    using clean [of "[]"] scan [of "[]"] assms(2) c(1)
    by (auto simp: parseJsonCommand_def Let_def split: option.splits)
  have "{CHR ''{''} \<inter> set (dropWhile isSpace prose) = {}"
    using assms(1) by (auto dest: set_dropWhileD)
  then have "scanCommand P (dropWhile isSpace prose @ c) =
      (case P c of None \<Rightarrow> JNull | Some v \<Rightarrow> v)"
    using scan [of "dropWhile isSpace prose"] by simp
  moreover have "P (dropWhile isSpace prose @ c) = None"
    using assms(6) trim_prose [OF c, of prose] by simp
  ultimately have "parseJsonCommand P (prose @ c) = (case P c of None \<Rightarrow> JNull | Some v \<Rightarrow> v)"
    using clean [OF assms(2)] c(1) by (simp add: parseJsonCommand_def Let_def)
  with bare show ?thesis by simp
qed


text \<open>
  \<^bold>\<open>C4, as the code has it.\<close>  A non-empty reply wrapped in a code fence (an opening fence with
  no tag or with \<open>json\<close> in any case, on a line of its own, and a closing fence on a line of
  its own) is parsed as the reply itself, for every reply and every \<open>JSON.parse\<close>.  Leading
  prose leaves the result unchanged when the prose has no \<open>{\<close> and no backtick and the
  text with the prose does not parse as a whole, and the command text begins with \<open>{\<close>, has
  no backtick, matches the search expression from its first character, and its braces,
  counted as the walk counts them, close at its last character.
\<close>

theorem fence_and_plain_prose_preserved:
  "(t \<noteq> [] \<and> (lang = [] \<or> toLowerCase lang = ''json'') \<longrightarrow>
      parseJsonCommand P (wrapFence lang t) = parseJsonCommand P t) \<and>
   (CHR ''{'' \<notin> set prose \<and> CHR ''`'' \<notin> set (prose @ c) \<and>
    c = CHR ''{'' # rest \<and> matchBody rest \<noteq> None \<and>
    walkBraces 0 c = Some (length c) \<and> P (trim (prose @ c)) = None \<longrightarrow>
      parseJsonCommand P (prose @ c) = parseJsonCommand P c)"
  using parseJsonCommand_wrapFence [of t lang P]
    parseJsonCommand_after_prose [of prose c rest P]
  by blast

text \<open>A plain search command: in a fence and after prose it parses to the same object.\<close>

lemma plainSearch_facts:
  "plainSearch \<noteq> []"
  "CHR ''{'' \<notin> set ''Sure, here it is: ''"
  "CHR ''`'' \<notin> set (''Sure, here it is: '' @ plainSearch)"
  "plainSearch = CHR ''{'' # tl plainSearch"
  "matchBody (tl plainSearch) \<noteq> None"
  "walkBraces 0 plainSearch = Some (length plainSearch)"
  "JSON_parse (trim (''Sure, here it is: '' @ plainSearch)) = None"
  by code_simp+

theorem fence_and_plain_prose_preserved_witness:
  "parseJsonCommand JSON_parse (wrapFence ''json'' plainSearch) =
     JObj [(''action'', JStr ''search''), (''query'', JStr ''cats'')] \<and>
   parseJsonCommand JSON_parse (''Sure, here it is: '' @ plainSearch) =
     JObj [(''action'', JStr ''search''), (''query'', JStr ''cats'')]"
  using fence_and_plain_prose_preserved
    [of plainSearch "''json''" JSON_parse "''Sure, here it is: ''" plainSearch "tl plainSearch"]
    plainSearch_facts plainSearch_parsed(1)
  by (simp add: toLowerCase_def lowerChar_def)

text \<open>The claim as it was stated fails for leading prose before a command whose query holds
  a closing brace: bare, the text parses as a whole; after the prose, the walk ends at
  the brace inside the string and the slice does not parse.\<close>

theorem prose_changes_braced_query:
  "parseJsonCommand JSON_parse bracedQuery =
     JObj [(''action'', JStr ''search''), (''query'', JStr ''a}b'')] \<and>
   parseJsonCommand JSON_parse (''Sure: '' @ bracedQuery) = JNull"
  by code_simp

subsection \<open>The research agent\<close>

declare research_loop.simps [simp del]

lemma fst_addEvents [simp]: "fst (addEvents evs p) = fst p"
  by (simp add: addEvents_def)

lemma snd_addEvents [simp]: "snd (addEvents evs p) = evs @ snd p"
  by (simp add: addEvents_def)

lemma addEvents_pair [simp]: "addEvents evs (x, ys) = (x, evs @ ys)"
  by (simp add: addEvents_def)

lemma chatMultiTurn_eqD:
  "chatMultiTurn cfg messages t = (r, evs) \<Longrightarrow> evs = [ChatCall messages t]"
  by (auto simp: chatMultiTurn_def split: sum.splits)

lemma dispatch_returned:
  "fst (dispatch st topic response cmd messages) = Returned s \<Longrightarrow> length s \<le> 1500"
  by (auto simp: dispatch_def Let_def split: if_splits sum.splits)

lemma dispatch_events:
  "length (filter isDispatch (snd (dispatch st topic response cmd messages))) \<le> 1"
  "filter isLogStep (snd (dispatch st topic response cmd messages)) = []"
  "filter isChatCall (snd (dispatch st topic response cmd messages)) = []"
  by (auto simp: dispatch_def Let_def split: if_splits sum.splits)

lemma askModel_events:
  "filter isDispatch (snd (askModel P cfg step messages)) = []"
  "filter isLogStep (snd (askModel P cfg step messages)) = []"
  "length (filter isChatCall (snd (askModel P cfg step messages))) \<le> (if step = 0 then 2 else 1)"
  by (auto simp: askModel_def Let_def dest!: chatMultiTurn_eqD
      split: if_splits sum.splits prod.splits)

lemma reasoningStep_returned:
  "fst (reasoningStep P cfg st topic step messages) = Returned s \<Longrightarrow> length s \<le> 1500"
  by (auto simp: reasoningStep_def dest: dispatch_returned split: sum.splits prod.splits)

lemma reasoningStep_dispatches:
  "length (filter isDispatch (snd (reasoningStep P cfg st topic step messages))) \<le> 1"
proof (cases "askModel P cfg step messages")
  case (Pair r evs)
  with askModel_events(1) [of P cfg step messages] have "filter isDispatch evs = []" by simp
  with Pair dispatch_events(1) show ?thesis
    by (auto simp: reasoningStep_def split: sum.splits prod.splits)
qed

lemma reasoningStep_logs:
  "filter isLogStep (snd (reasoningStep P cfg st topic step messages)) = [LogStep step]"
proof (cases "askModel P cfg step messages")
  case (Pair r evs)
  with askModel_events(2) [of P cfg step messages] have "filter isLogStep evs = []" by simp
  with Pair dispatch_events(2) show ?thesis
    by (auto simp: reasoningStep_def split: sum.splits prod.splits)
qed

lemma reasoningStep_chats:
  "length (filter isChatCall (snd (reasoningStep P cfg st topic step messages)))
     \<le> (if step = 0 then 2 else 1)"
proof (cases "askModel P cfg step messages")
  case (Pair r evs)
  with askModel_events(3) [of P cfg step messages]
  have "length (filter isChatCall evs) \<le> (if step = 0 then 2 else 1)" by simp
  with Pair dispatch_events(3) show ?thesis
    by (auto simp: reasoningStep_def split: sum.splits prod.splits)
qed

lemma forceSummary_length:
  "fst (forceSummary P cfg messages) = Inr s \<Longrightarrow> length s \<le> 1500"
  by (auto simp: forceSummary_def Let_def split: if_splits sum.splits prod.splits option.splits)

lemma forceSummary_events:
  "snd (forceSummary P cfg messages) = [ChatCall (messages @ [StepLimitMsg]) (3 / 10)]"
  by (auto simp: forceSummary_def Let_def dest!: chatMultiTurn_eqD
      split: if_splits sum.splits prod.splits option.splits)

lemma research_loop_length:
  "fst (research_loop P cfg st topic step messages) = Inr s \<Longrightarrow> length s \<le> 1500"
proof (induction P cfg st topic step messages rule: research_loop.induct)
  case (1 P cfg st topic step messages)
  show ?case
  proof (cases "step < maxResearchSteps cfg")
    case False
    with "1.prems" show ?thesis by (simp add: research_loop.simps forceSummary_length)
  next
    case True
    obtain x evs where rs: "reasoningStep P cfg st topic step messages = (x, evs)"
      by (cases "reasoningStep P cfg st topic step messages")
    note unfold = research_loop.simps [of P cfg st topic step messages]
    show ?thesis
    proof (cases x)
      case (Threw e)
      with True rs "1.prems" show ?thesis by (simp add: unfold)
    next
      case (Returned r)
      with True rs "1.prems" reasoningStep_returned [of P cfg st topic step messages r]
      show ?thesis by (simp add: unfold)
    next
      case (Continue ms)
      with True rs "1.prems" "1.IH" show ?thesis by (simp add: unfold)
    next
      case (Break ms)
      with True rs "1.prems" show ?thesis by (simp add: unfold forceSummary_length)
    qed
  qed
qed

lemma research_loop_counts:
  "length (filter isDispatch (snd (research_loop P cfg st topic step messages)))
     \<le> maxResearchSteps cfg - step \<and>
   length (filter isLogStep (snd (research_loop P cfg st topic step messages)))
     \<le> maxResearchSteps cfg - step \<and>
   length (filter isChatCall (snd (research_loop P cfg st topic step messages)))
     \<le> maxResearchSteps cfg - step + (if step = 0 then 2 else 1)"
proof (induction P cfg st topic step messages rule: research_loop.induct)
  case (1 P cfg st topic step messages)
  show ?case
  proof (cases "step < maxResearchSteps cfg")
    case False
    then show ?thesis by (simp add: research_loop.simps forceSummary_events)
  next
    case True
    obtain x evs where rs: "reasoningStep P cfg st topic step messages = (x, evs)"
      by (cases "reasoningStep P cfg st topic step messages")
    note unfold = research_loop.simps [of P cfg st topic step messages]
    have d: "length (filter isDispatch evs) \<le> 1"
      using reasoningStep_dispatches [of P cfg st topic step messages] rs by simp
    have l: "length (filter isLogStep evs) = 1"
      using reasoningStep_logs [of P cfg st topic step messages] rs by simp
    have c: "length (filter isChatCall evs) \<le> (if step = 0 then 2 else 1)"
      using reasoningStep_chats [of P cfg st topic step messages] rs by simp
    show ?thesis
    proof (cases x)
      case (Threw e)
      with True rs d l c show ?thesis by (auto simp: unfold split: if_splits)
    next
      case (Returned r)
      with True rs d l c show ?thesis by (auto simp: unfold split: if_splits)
    next
      case (Continue ms)
      with True rs d l c "1.IH" show ?thesis by (auto simp: unfold split: if_splits)
    next
      case (Break ms)
      with True rs d l c show ?thesis
        by (auto simp: unfold forceSummary_events split: if_splits)
    qed
  qed
qed

text \<open>
  \<^bold>\<open>C1.\<close>  For every step budget \<open>maxResearchSteps = N\<close> and every behaviour of the model, of the
  tools and of \<open>JSON.parse\<close>, one run of \<open>research(topic)\<close> goes through the body of its loop at
  most \<open>N\<close> times (it prints at most \<open>N\<close> step lines), calls \<open>search\<close> and \<open>fetchPage\<close> at
  most \<open>N\<close> times in total, and asks the model at most \<open>N + 2\<close> times (the nudge and the forced
  summary are the two extra requests).  \<open>research\<close> is a total function: the run ends whether
  or not the model ever says \<open>done\<close>.
\<close>

theorem research_bounded_steps:
  "length (filter isLogStep (snd (research P cfg topic))) \<le> maxResearchSteps cfg \<and>
   length (filter isDispatch (snd (research P cfg topic))) \<le> maxResearchSteps cfg \<and>
   length (filter isChatCall (snd (research P cfg topic))) \<le> maxResearchSteps cfg + 2"
proof (cases "searchTools cfg")
  case None
  then show ?thesis by (simp add: research_def)
next
  case (Some st)
  with research_loop_counts [of P cfg st topic 0 "[ResearchSystem, ResearchUser topic]"]
  show ?thesis by (simp add: research_def)
qed

text \<open>The scenario of the specification: a budget of two, a model that always searches.
  Two searches are dispatched, then the step-limit message is sent and the reply to it is
  the summary.\<close>

lemma alwaysSearch_run:
  \<open>research JSON_parse alwaysSearch ''topic'' =
     (Inr ''{"action":"search","query":"cats"}'',
      [LogStep 0,
       ChatCall [ResearchSystem, ResearchUser ''topic''] (3 / 10),
       SearchCall (JStr ''cats''),
       LogStep 1,
       ChatCall [ResearchSystem, ResearchUser ''topic'',
                 Assistant ''{"action":"search","query":"cats"}'',
                 SearchResultsMsg (Some (JStr ''cats'')) []] (3 / 10),
       SearchCall (JStr ''cats''),
       ChatCall [ResearchSystem, ResearchUser ''topic'',
                 Assistant ''{"action":"search","query":"cats"}'',
                 SearchResultsMsg (Some (JStr ''cats'')) [],
                 Assistant ''{"action":"search","query":"cats"}'',
                 SearchResultsMsg (Some (JStr ''cats'')) [],
                 StepLimitMsg] (3 / 10)])\<close>
  by code_simp

theorem research_bounded_steps_witness:
  "maxResearchSteps alwaysSearch = 2 \<and>
   filter isDispatch (snd (research JSON_parse alwaysSearch ''topic'')) =
     [SearchCall (JStr ''cats''), SearchCall (JStr ''cats'')] \<and>
   length (filter isLogStep (snd (research JSON_parse alwaysSearch ''topic''))) \<le> 2 \<and>
   length (filter isChatCall (snd (research JSON_parse alwaysSearch ''topic''))) \<le> 4"
  using research_bounded_steps [of JSON_parse alwaysSearch "''topic''"]
  by (simp add: alwaysSearch_run) (simp add: alwaysSearch_def offline_def)

text \<open>The model that answers with a summary of 1600 characters: its reply is read as the
  command it spells, and the first call to the model returns it.\<close>

lemma longSummary_chars:
  "\<forall>c \<in> set longSummary. c = CHR ''x''"
  "length longSummary = 1600"
  "take 1500 longSummary = replicate 1500 (CHR ''x'')"
  by (simp_all add: longSummary_def)

lemma longReply_lexed:
  "lexJson longReply =
     Some [TLBrace, TString ''action'', TColon, TString ''done'', TComma,
           TString ''summary'', TColon, TString longSummary, TRBrace]"
proof -
  have "lexString (longSummary @ CHR 0x22 # ''}'') = Some (longSummary, ''}'')"
    by (rule lexString_plain) (simp add: longSummary_def)
  then show ?thesis
    by (simp add: longReply_def longSummary_chars(2))
qed

lemma longReply_parsed: "JSON_parse longReply = Some longCommand"
  by (simp add: JSON_parse_def longReply_lexed longCommand_def)

lemma longReply_clean: "cleanReply longReply = longReply" "trim longReply = longReply"
proof -
  have nb: "CHR ''`'' \<notin> set longReply"
    by (simp add: longReply_def longSummary_def)
  have t: "trim ([] @ longReply) = dropWhile isSpace [] @ longReply"
    by (rule trim_prose) (simp_all add: longReply_def)
  then show "trim longReply = longReply" by simp
  with nb show "cleanReply longReply = longReply"
    by (simp add: cleanReply_def stripFenceOpen_no_backtick removeFence_no_backtick)
qed

lemma longReply_command: "parseJsonCommand JSON_parse longReply = longCommand"
proof -
  have "longReply \<noteq> []" by (simp add: longReply_def)
  then show ?thesis
    by (simp add: parseJsonCommand_def longReply_clean longReply_parsed longCommand_def)
qed

lemma longDone_ask:
  "askModel JSON_parse longDone 0 [ResearchSystem, ResearchUser ''topic''] =
     (Inr (longReply, longCommand,
           [ResearchSystem, ResearchUser ''topic'', Assistant longReply]),
      [ChatCall [ResearchSystem, ResearchUser ''topic''] (3 / 10)])"
  by (simp add: askModel_def chatMultiTurn_def longDone_def offline_def longReply_clean
      longReply_command Let_def) (simp add: longCommand_def)

text \<open>
  \<^bold>\<open>C5.\<close>  Every string that \<open>research\<close> returns has at most 1500 characters, whichever way the
  run ends (a \<open>done\<close> command, a reply with no command, an unknown action, the forced
  summary).  When a step acts on a \<open>done\<close> command with a non-empty string summary, the run
  returns the first 1500 characters of that summary.
\<close>

theorem research_summary_bounded:
  "(\<forall>s. fst (research P cfg topic) = Inr s \<longrightarrow> length s \<le> 1500) \<and>
   (step < maxResearchSteps cfg \<and>
    askModel P cfg step messages = (Inr (response, cmd, transcript), evs) \<and>
    truthy cmd \<and> getProp cmd ''action'' = Some (JStr ''done'') \<and>
    getProp cmd ''summary'' = Some (JStr summary) \<and> summary \<noteq> [] \<longrightarrow>
      fst (research_loop P cfg st topic step messages) = Inr (take 1500 summary))"
proof -
  have "length s \<le> 1500" if "fst (research P cfg topic) = Inr s" for s
    using that research_loop_length [of P cfg _ topic 0 "[ResearchSystem, ResearchUser topic]" s]
    by (auto simp: research_def split: option.splits)
  moreover have "fst (research_loop P cfg st topic step messages) = Inr (take 1500 summary)"
    if "step < maxResearchSteps cfg"
      and "askModel P cfg step messages = (Inr (response, cmd, transcript), evs)"
      and "truthy cmd" and "getProp cmd ''action'' = Some (JStr ''done'')"
      and "getProp cmd ''summary'' = Some (JStr summary)" and "summary \<noteq> []"
  proof -
    have "dispatch st topic response cmd transcript = (Returned (take 1500 summary), [])"
      using that(3-6) by (simp add: dispatch_def toStr_def)
    with that(2) have "fst (reasoningStep P cfg st topic step messages) = Returned (take 1500 summary)"
      by (simp add: reasoningStep_def)
    with that(1) show ?thesis
      by (cases "reasoningStep P cfg st topic step messages")
         (simp add: research_loop.simps [of P cfg st topic step messages])
  qed
  ultimately show ?thesis by blast
qed

text \<open>A summary of 1600 characters comes back as its first 1500.\<close>

theorem research_summary_bounded_witness:
  "length longSummary = 1600 \<and>
   fst (research JSON_parse longDone ''topic'') = Inr (replicate 1500 (CHR ''x'')) \<and>
   length (replicate 1500 (CHR ''x'')) \<le> 1500"
proof -
  have budget: "0 < maxResearchSteps longDone" and st: "searchTools longDone = Some emptyTools"
    by (simp_all add: longDone_def offline_def)
  have cmd: "truthy longCommand" "getProp longCommand ''action'' = Some (JStr ''done'')"
    "getProp longCommand ''summary'' = Some (JStr longSummary)" "longSummary \<noteq> []"
    by (simp_all add: longCommand_def longSummary_def)
  have "fst (research_loop JSON_parse longDone emptyTools ''topic'' 0
               [ResearchSystem, ResearchUser ''topic'']) = Inr (take 1500 longSummary)"
    using research_summary_bounded
      [where P = JSON_parse and cfg = longDone and topic = "''topic''" and step = 0
         and messages = "[ResearchSystem, ResearchUser ''topic'']" and response = longReply
         and cmd = longCommand and summary = longSummary and st = emptyTools
         and transcript = "[ResearchSystem, ResearchUser ''topic'', Assistant longReply]"
         and evs = "[ChatCall [ResearchSystem, ResearchUser ''topic''] (3 / 10)]"]
      budget longDone_ask cmd
    by blast
  moreover have "research JSON_parse longDone ''topic'' =
      research_loop JSON_parse longDone emptyTools ''topic'' 0 [ResearchSystem, ResearchUser ''topic'']"
    by (simp add: research_def st)
  ultimately have "fst (research JSON_parse longDone ''topic'') = Inr (take 1500 longSummary)"
    by (simp only:)
  then show ?thesis
    by (simp only: longSummary_chars length_replicate) simp
qed

text \<open>
  When the command a step acts on is truthy and carries a truthy \<open>action\<close> that is none of
  \<open>search\<close>, \<open>read\<close> and \<open>done\<close>, and the action prints, the loop is left at once: the run
  continues with the forced summary over the conversation as it stands, and from that
  step on neither \<open>search\<close> nor \<open>fetchPage\<close> is called.
\<close>

lemma unknown_action_ends_run:
  assumes "step < maxResearchSteps cfg"
    and "askModel P cfg step messages = (Inr (response, cmd, transcript), evs)"
    and "truthy cmd" and "truthyU (getProp cmd ''action'')"
    and "getProp cmd ''action'' \<notin>
           {Some (JStr ''done''), Some (JStr ''search''), Some (JStr ''read'')}"
    and "stringableU (getProp cmd ''action'')"
  shows "research_loop P cfg st topic step messages =
           addEvents (LogStep step # evs) (forceSummary P cfg transcript) \<and>
         filter isDispatch (snd (research_loop P cfg st topic step messages)) = []"
proof -
  have d: "dispatch st topic response cmd transcript = (Break transcript, [])"
    using assms(3-6) by (simp add: dispatch_def)
  have r: "reasoningStep P cfg st topic step messages = (Break transcript, LogStep step # evs)"
    using assms(2) d by (simp add: reasoningStep_def)
  have l: "research_loop P cfg st topic step messages =
           addEvents (LogStep step # evs) (forceSummary P cfg transcript)"
    using assms(1) r by (simp add: research_loop.simps)
  have "filter isDispatch evs = []"
    using askModel_events(1) [of P cfg step messages] assms(2) by simp
  with l show ?thesis by (simp add: forceSummary_events)
qed

text \<open>A model that names an action the agent does not know: the run ends with the summary
  the model gives when told that the steps are used up.\<close>

lemma givesUp_run:
  \<open>research JSON_parse givesUp ''topic'' =
     (Inr ''nothing found'',
      [LogStep 0,
       ChatCall [ResearchSystem, ResearchUser ''topic''] (3 / 10),
       ChatCall [ResearchSystem, ResearchUser ''topic'', Assistant ''{"action":"think"}'',
                 StepLimitMsg] (3 / 10)])\<close>
  by code_simp

text \<open>
  \<^bold>\<open>C9.\<close>  The claim is that a command with an action other than \<open>search\<close>, \<open>read\<close> and \<open>done\<close>
  ends the run early, with the transcript so far and without an error.  The branch that
  does this prints the action into its log line, \<open>Unknown action "${cmd.action}"\<close>,
  before the \<open>break\<close>.  For the reply \<open>{"action":{"toString":1}}\<close> the action is an object
  that cannot be printed: the template throws a \<open>TypeError\<close>, nothing in \<open>research\<close>
  catches it, and the run ends with that error instead of a summary; the model is never
  asked for one.
\<close>

theorem unknown_action_object_throws:
  "parseJsonCommand JSON_parse objectAction =
     JObj [(''action'', JObj [(''toString'', JNum ''1'')])] \<and>
   truthyU (getProp (parseJsonCommand JSON_parse objectAction) ''action'') \<and>
   getProp (parseJsonCommand JSON_parse objectAction) ''action'' \<notin>
     {Some (JStr ''done''), Some (JStr ''search''), Some (JStr ''read'')} \<and>
   research JSON_parse (answering objectAction) ''topic'' =
     (Inl (Exn ''TypeError''),
      [LogStep 0, ChatCall [ResearchSystem, ResearchUser ''topic''] (3 / 10)])"
  by code_simp

subsection \<open>The decision functions\<close>

lemma includesStr_Nil [simp]: "includesStr s [] = True"
  by (cases s) simp_all

lemma trim_body:
  assumes "\<forall>c \<in> set pre. isSpace c" and "\<forall>c \<in> set post. isSpace c"
    and "body \<noteq> [] \<longrightarrow> \<not> isSpace (hd body) \<and> \<not> isSpace (last body)"
  shows "trim (pre @ body @ post) = body"
proof -
  have "trim (pre @ body @ post) = trim (body @ post)"
    using assms(1) by (rule trim_leading_space)
  also have "\<dots> = trim body"
    using assms(2) by (rule trim_trailing_space)
  also have "\<dots> = body"
  proof (cases "body = []")
    case True
    then show ?thesis by (simp add: trim_def)
  next
    case False
    with assms(3) trim_prose [of body "[]"] show ?thesis by simp
  qed
  finally show ?thesis .
qed

lemma find_first:
  "\<forall>x \<in> set before. \<not> Q x \<Longrightarrow> Q opt \<Longrightarrow> find Q (before @ opt # after) = Some opt"
  by (induction before) simp_all

lemma includesStr_sublist: "includesStr s x \<longleftrightarrow> sublist x s"
  by (induction s) (simp_all add: sublist_Cons_right)


text \<open>Every reply is a body between white space, where the body neither begins nor ends
  with white space.\<close>

lemma reply_decomposition:
  "\<exists>pre body post.
     response = pre @ body @ post \<and>
     (\<forall>c \<in> set pre. (of_char c :: nat) \<in> {9, 10, 11, 12, 13, 32, 160}) \<and>
     (\<forall>c \<in> set post. (of_char c :: nat) \<in> {9, 10, 11, 12, 13, 32, 160}) \<and>
     (body \<noteq> [] \<longrightarrow> (of_char (hd body) :: nat) \<notin> {9, 10, 11, 12, 13, 32, 160} \<and>
                     (of_char (last body) :: nat) \<notin> {9, 10, 11, 12, 13, 32, 160})"
proof -
  define r where "r = dropWhile isSpace response"
  define pre where "pre = takeWhile isSpace response"
  define body where "body = rev (dropWhile isSpace (rev r))"
  define post where "post = rev (takeWhile isSpace (rev r))"
  have split: "response = pre @ r"
    by (simp add: pre_def r_def)
  have "r = rev (takeWhile isSpace (rev r) @ dropWhile isSpace (rev r))"
    by simp
  then have r: "r = body @ post"
    unfolding body_def post_def by (simp only: rev_append)
  have pre: "\<forall>c \<in> set pre. isSpace c"
    by (auto simp: pre_def dest: set_takeWhileD)
  have post: "\<forall>c \<in> set post. isSpace c"
    by (auto simp: post_def dest: set_takeWhileD)
  have ends: "\<not> isSpace (hd body) \<and> \<not> isSpace (last body)" if ne: "body \<noteq> []"
  proof -
    from ne have d: "dropWhile isSpace (rev r) \<noteq> []" by (simp add: body_def)
    then have "\<not> isSpace (hd (dropWhile isSpace (rev r)))" by (rule hd_dropWhile)
    moreover have "last body = hd (dropWhile isSpace (rev r))"
      using d by (simp add: body_def last_rev)
    moreover from ne r have "r \<noteq> []" and "hd body = hd r" by auto
    moreover from \<open>r \<noteq> []\<close> have "\<not> isSpace (hd r)"
      unfolding r_def by (rule hd_dropWhile)
    ultimately show ?thesis by simp
  qed
  from split r pre post ends show ?thesis
    unfolding isSpace_def by (intro exI [of _ pre] exI [of _ body] exI [of _ post]) auto
qed

text \<open>
  \<^bold>\<open>C3.\<close>  \<open>chooseVote\<close> returns what the ladder gives for the model's reply.  Let the reply
  be \<open>body\<close> with white space before and after it (the code units 9 to 13, 32 and 160),
  where \<open>body\<close> neither begins nor ends with white space; let \<open>k\<close> be \<open>body\<close> without the
  three quote characters \<open>'\<close>, \<open>"\<close> and the backtick, and \<open>lc\<close> its lower-case form.
  (a) If some option has the key \<open>k\<close>, the result is \<open>k\<close>.
  (b) Otherwise, if \<open>opt\<close> is the first option whose label or key, lower-cased, equals
      \<open>lc\<close>, the result is its key.
  (c) Otherwise, if \<open>opt\<close> is the first option whose lower-cased key or label occurs in
      \<open>lc\<close>, the result is its key.
  (d) Otherwise the result is the key of the first option.
  With at least one option the result is never \<open>null\<close>: on rung (d) the first key is not
  empty, since an empty key occurs in every reply.
\<close>

theorem chooseVote_recovery_ladder:
  fixes options :: "survey_option list" and response pre body post k lc :: string
  assumes reply: "response = pre @ body @ post"
    and pre: "\<forall>c \<in> set pre. (of_char c :: nat) \<in> {9, 10, 11, 12, 13, 32, 160}"
    and post: "\<forall>c \<in> set post. (of_char c :: nat) \<in> {9, 10, 11, 12, 13, 32, 160}"
    and body: "body \<noteq> [] \<longrightarrow> (of_char (hd body) :: nat) \<notin> {9, 10, 11, 12, 13, 32, 160} \<and>
                            (of_char (last body) :: nat) \<notin> {9, 10, 11, 12, 13, 32, 160}"
    and k: "k = filter (\<lambda>c. c \<notin> {CHR 0x27, CHR 0x22, CHR 0x60}) body"
    and lc: "lc = map lowerChar k"
  shows
    "((\<exists>opt \<in> set options. key opt = k) \<longrightarrow> matchOption options response = Some k) \<and>
     ((\<forall>opt \<in> set options. key opt \<noteq> k) \<and>
      options = before @ opt # after \<and>
      (\<forall>x \<in> set before. map lowerChar (survey_option.label x) \<noteq> lc \<and> map lowerChar (key x) \<noteq> lc) \<and>
      (map lowerChar (survey_option.label opt) = lc \<or> map lowerChar (key opt) = lc) \<longrightarrow>
        matchOption options response = Some (key opt)) \<and>
     ((\<forall>x \<in> set options. key x \<noteq> k \<and> map lowerChar (survey_option.label x) \<noteq> lc \<and>
                          map lowerChar (key x) \<noteq> lc) \<and>
      options = before @ opt # after \<and>
      (\<forall>x \<in> set before. \<not> sublist (map lowerChar (key x)) lc \<and>
                         \<not> sublist (map lowerChar (survey_option.label x)) lc) \<and>
      (sublist (map lowerChar (key opt)) lc \<or> sublist (map lowerChar (survey_option.label opt)) lc) \<longrightarrow>
        matchOption options response = Some (key opt)) \<and>
     ((\<forall>x \<in> set options. key x \<noteq> k \<and> map lowerChar (survey_option.label x) \<noteq> lc \<and>
                          map lowerChar (key x) \<noteq> lc \<and>
                          \<not> sublist (map lowerChar (key x)) lc \<and>
                          \<not> sublist (map lowerChar (survey_option.label x)) lc) \<and>
      options \<noteq> [] \<longrightarrow>
        matchOption options response = Some (key (hd options))) \<and>
     (options \<noteq> [] \<longrightarrow> matchOption options response \<noteq> None) \<and>
     (research P cfg (voteTopic sv options) = (Inr researchSummary, evs) \<and>
      chatMultiTurn cfg [VoteSystem, VoteUser sv options counts researchSummary] (5 / 10)
        = (Inr response, evs2) \<longrightarrow>
        fst (chooseVote P cfg sv options counts) = Inr (matchOption options response))"
proof -
  have "trim response = body"
    unfolding reply using pre post body by (intro trim_body) (simp_all add: isSpace_def)
  then have rk: "replyKey response = k"
    by (simp add: replyKey_def k)
  have ex: "exactKey k x \<longleftrightarrow> key x = k" for x
    by (simp add: exactKey_def)
  have same: "sameIgnoringCase lc x \<longleftrightarrow>
      map lowerChar (survey_option.label x) = lc \<or> map lowerChar (key x) = lc" for x
    by (simp add: sameIgnoringCase_def toLowerCase_def)
  have sub: "containedIn lc x \<longleftrightarrow>
      sublist (map lowerChar (key x)) lc \<or> sublist (map lowerChar (survey_option.label x)) lc" for x
    by (simp add: containedIn_def toLowerCase_def includesStr_sublist)
  have unfold: "matchOption options response =
     (if find (exactKey k) options \<noteq> None then Some k
      else case find (sameIgnoringCase lc) options of
             Some byLabel \<Rightarrow> Some (key byLabel)
           | None \<Rightarrow>
               (case find (containedIn lc) options of
                  Some bySub \<Rightarrow> Some (key bySub)
                | None \<Rightarrow>
                    (case options of
                       [] \<Rightarrow> None
                     | opt # rest \<Rightarrow> (if key opt = [] then None else Some (key opt)))))"
    by (simp add: matchOption_def Let_def rk lc [symmetric] toLowerCase_def)
  have a: "matchOption options response = Some k" if "\<exists>opt \<in> set options. key opt = k"
    using that by (auto simp: unfold find_None_iff ex)
  have b: "matchOption options response = Some (key opt)"
    if "\<forall>opt \<in> set options. key opt \<noteq> k" and "options = before @ opt # after"
      and "\<forall>x \<in> set before. map lowerChar (survey_option.label x) \<noteq> lc \<and> map lowerChar (key x) \<noteq> lc"
      and "map lowerChar (survey_option.label opt) = lc \<or> map lowerChar (key opt) = lc"
    for before opt after
  proof -
    have "find (exactKey k) options = None"
      using that(1) by (simp add: find_None_iff ex)
    moreover have "find (sameIgnoringCase lc) options = Some opt"
      unfolding that(2) using that(3,4) by (intro find_first) (simp_all add: same)
    ultimately show ?thesis by (simp add: unfold)
  qed
  have c: "matchOption options response = Some (key opt)"
    if "\<forall>x \<in> set options. key x \<noteq> k \<and> map lowerChar (survey_option.label x) \<noteq> lc \<and>
                             map lowerChar (key x) \<noteq> lc"
      and "options = before @ opt # after"
      and "\<forall>x \<in> set before. \<not> sublist (map lowerChar (key x)) lc \<and>
                            \<not> sublist (map lowerChar (survey_option.label x)) lc"
      and "sublist (map lowerChar (key opt)) lc \<or> sublist (map lowerChar (survey_option.label opt)) lc"
    for before opt after
  proof -
    have "find (exactKey k) options = None" "find (sameIgnoringCase lc) options = None"
      using that(1) by (simp_all add: find_None_iff ex same)
    moreover have "find (containedIn lc) options = Some opt"
      unfolding that(2) using that(3,4) by (intro find_first) (simp_all add: sub)
    ultimately show ?thesis by (simp add: unfold)
  qed
  have d: "matchOption options response = Some (key (hd options))"
    if none: "\<forall>x \<in> set options. key x \<noteq> k \<and> map lowerChar (survey_option.label x) \<noteq> lc \<and>
                          map lowerChar (key x) \<noteq> lc \<and>
                          \<not> sublist (map lowerChar (key x)) lc \<and>
                          \<not> sublist (map lowerChar (survey_option.label x)) lc"
      and some: "options \<noteq> []"
  proof -
    obtain opt rest where o: "options = opt # rest"
      using some by (cases options) auto
    have "find (exactKey k) options = None" "find (sameIgnoringCase lc) options = None"
         "find (containedIn lc) options = None"
      using none by (simp_all add: find_None_iff ex same sub)
    moreover have "key opt \<noteq> []"
    proof
      assume "key opt = []"
      then have "sublist (map lowerChar (key opt)) lc" by simp
      with none o show False by simp
    qed
    ultimately have "matchOption options response =
        (case options of
           [] \<Rightarrow> None
         | opt # rest \<Rightarrow> (if key opt = [] then None else Some (key opt)))"
      by (simp add: unfold)
    with o \<open>key opt \<noteq> []\<close> show ?thesis by simp
  qed
  have e: "matchOption options response \<noteq> None" if ne: "options \<noteq> []"
  proof -
    obtain opt rest where o: "options = opt # rest"
      using ne by (cases options) auto
    have "find (containedIn lc) options \<noteq> None \<or>
          (case options of
             [] \<Rightarrow> None
           | opt # rest \<Rightarrow> (if key opt = [] then None else Some (key opt))) \<noteq> None"
    proof (cases "key opt = []")
      case True
      then have "containedIn lc opt" by (simp add: sub)
      with o have "\<exists>x \<in> set options. containedIn lc x" by simp
      then show ?thesis by (auto simp: find_None_iff)
    next
      case False
      with o show ?thesis by simp
    qed
    then show ?thesis
      unfolding unfold by (auto split: option.splits)
  qed
  have f: "fst (chooseVote P cfg sv options counts) = Inr (matchOption options response)"
    if "research P cfg (voteTopic sv options) = (Inr researchSummary, evs)"
       "chatMultiTurn cfg [VoteSystem, VoteUser sv options counts researchSummary] (5 / 10)
          = (Inr response, evs2)"
    using that by (simp add: chooseVote_def)
  from a b [of before opt after] c [of before opt after] d e f show ?thesis by blast
qed


text \<open>The scenario of the specification: the options \<open>a\<close> (Red) and \<open>b\<close> (Blue), the reply
  \<open>blue\<close>, the vote \<open>b\<close>, by rung (b); and the reply \<open>"b"\<close> in quotes between two spaces,
  by rung (a).\<close>

lemma saysBlue_run:
  "fst (chooseVote JSON_parse saysBlue colours redBlue []) = Inr (Some ''b'')"
  by code_simp

theorem chooseVote_recovery_ladder_witness:
  \<open>matchOption redBlue ''blue'' = Some ''b'' \<and>
   matchOption redBlue '' "b" '' = Some ''b'' \<and>
   fst (chooseVote JSON_parse saysBlue colours redBlue []) = Inr (Some ''b'')\<close>
proof -
  have lower: "lowerChar (CHR ''B'') = CHR ''b''" "lowerChar (CHR ''R'') = CHR ''r''"
    "lowerChar (CHR ''a'') = CHR ''a''" "lowerChar (CHR ''b'') = CHR ''b''"
    "lowerChar (CHR ''d'') = CHR ''d''" "lowerChar (CHR ''e'') = CHR ''e''"
    "lowerChar (CHR ''l'') = CHR ''l''" "lowerChar (CHR ''u'') = CHR ''u''"
    by code_simp+
  have "(\<forall>opt \<in> set redBlue. key opt \<noteq> ''blue'') \<and>
        redBlue = [\<lparr>key = ''a'', label = ''Red''\<rparr>] @ \<lparr>key = ''b'', label = ''Blue''\<rparr> # [] \<and>
        (\<forall>x \<in> set [\<lparr>key = ''a'', label = ''Red''\<rparr>].
           map lowerChar (survey_option.label x) \<noteq> ''blue'' \<and> map lowerChar (key x) \<noteq> ''blue'') \<and>
        (map lowerChar (survey_option.label \<lparr>key = ''b'', label = ''Blue''\<rparr>) = ''blue'' \<or>
         map lowerChar (key \<lparr>key = ''b'', label = ''Blue''\<rparr>) = ''blue'') \<longrightarrow>
        matchOption redBlue ''blue'' = Some (key \<lparr>key = ''b'', label = ''Blue''\<rparr>)"
  proof (rule chooseVote_recovery_ladder
      [where response = "''blue''" and pre = "[]" and body = "''blue''" and post = "[]"
         and k = "''blue''" and lc = "''blue''" and options = redBlue
         and before = "[\<lparr>key = ''a'', label = ''Red''\<rparr>]"
         and opt = "\<lparr>key = ''b'', label = ''Blue''\<rparr>" and after = "[]",
       THEN conjunct2, THEN conjunct1])
    show "''blue'' = map lowerChar ''blue''" by (simp add: lower)
  qed simp_all
  then have blue: "matchOption redBlue ''blue'' = Some ''b''"
    by (simp add: redBlue_def lower)
  have \<open>(\<exists>opt \<in> set redBlue. key opt = ''b'') \<longrightarrow> matchOption redBlue '' "b" '' = Some ''b''\<close>
  proof (rule chooseVote_recovery_ladder
      [where response = \<open>'' "b" ''\<close> and pre = "'' ''" and body = \<open>''"b"''\<close>
         and post = "'' ''" and k = "''b''" and lc = "''b''" and options = redBlue,
       THEN conjunct1])
    show "''b'' = map lowerChar ''b''" by (simp add: lower)
  qed simp_all
  then have quoted: \<open>matchOption redBlue '' "b" '' = Some ''b''\<close>
    by (simp add: redBlue_def)
  from blue quoted saysBlue_run show ?thesis by simp
qed

lemma parseSuggestion_shape:
  "length (suggestion.label (parseSuggestion P canGen response)) \<le> 200 \<and>
   (wantsImage (parseSuggestion P canGen response) \<longrightarrow> canGen)"
  by (simp add: parseSuggestion_def Let_def split: option.splits sum.splits)

text \<open>
  \<^bold>\<open>C10.\<close>  Every suggestion that \<open>suggestOption\<close> returns has a label of at most 200
  characters, and its \<open>wantsImage\<close> is true only if \<open>canGenerateImages\<close> is: when image
  generation is unavailable, \<open>wantsImage\<close> is false whatever the reply said.  That the label
  and the description are strings and \<open>wantsImage\<close> a boolean is the type of the record:
  the source builds them with \<open>String(...)\<close>, \<open>&&\<close> of a boolean and \<open>!!\<close>.

  \<open>canGenerateImages\<close> is a variable of the closure, taken here as either value.
\<close>

theorem suggestOption_shape:
  "(\<forall>s. fst (suggestOption P cfg sv existingOptions) = Inr s \<longrightarrow>
        length (suggestion.label s) \<le> 200 \<and> (wantsImage s \<longrightarrow> canGenerateImages cfg)) \<and>
   (\<not> canGenerateImages cfg \<longrightarrow>
      (\<forall>s. fst (suggestOption P cfg sv existingOptions) = Inr s \<longrightarrow> \<not> wantsImage s))"
proof -
  have "length (suggestion.label s) \<le> 200 \<and> (wantsImage s \<longrightarrow> canGenerateImages cfg)"
    if "fst (suggestOption P cfg sv existingOptions) = Inr s" for s
  proof -
    from that obtain response where "s = parseSuggestion P (canGenerateImages cfg) response"
      by (auto simp: suggestOption_def split: prod.splits sum.splits)
    then show ?thesis
      using parseSuggestion_shape [of P "canGenerateImages cfg" response] by blast
  qed
  then show ?thesis by blast
qed

text \<open>A reply that asks for an image, with image generation unavailable.\<close>

lemma wantsPicture_run:
  "fst (suggestOption JSON_parse wantsPicture colours redBlue) =
     Inr \<lparr>label = ''Add dark mode'', wantsImage = False, imageDescription = ''a moon''\<rparr>"
  by code_simp

lemma wantsPicture_parsed:
  \<open>JSON_parse ''{"label":"Add dark mode","wantsImage":true,"imageDescription":"a moon"}'' =
     Some (JObj [(''label'', JStr ''Add dark mode''), (''wantsImage'', JBool True),
                 (''imageDescription'', JStr ''a moon'')])\<close>
  by code_simp

theorem suggestOption_shape_witness:
  "\<not> canGenerateImages wantsPicture \<and>
   fst (suggestOption JSON_parse wantsPicture colours redBlue) =
     Inr \<lparr>label = ''Add dark mode'', wantsImage = False, imageDescription = ''a moon''\<rparr> \<and>
   length ''Add dark mode'' \<le> (200 :: nat)"
  using suggestOption_shape [of JSON_parse wantsPicture colours redBlue] wantsPicture_run
  by (simp add: wantsPicture_def offline_def)

subsection \<open>The generation router\<close>

lemma generateImage_catches: "\<exists>v. fst (generateImage cfg description) = Inr v"
  by (auto simp: generateImage_def split: prod.splits sum.splits imageBackend.splits)

lemma gemini_no_store:
  assumes "imageStoreURL cfg = None \<or> imageStoreURL cfg = Some []"
  shows "snd (generateImageGemini cfg description) = [ImagenRequest description]"
    and "fst (generateImageGemini cfg description) = Inr v \<Longrightarrow> v = Some JNull"
  using assms
  by (auto simp: generateImageGemini_def Let_def split: sum.splits option.splits if_splits)

text \<open>
  \<^bold>\<open>C8.\<close>  With the native-REST backend and no store endpoint (unset or empty), \<open>generateImage\<close>
  returns \<open>null\<close> and makes no upload request.  With any backend \<open>generateImage\<close> throws
  nothing: when the strategy for the backend throws, the result is \<open>null\<close>.
\<close>

theorem generateImage_native_without_store:
  "(imgBackend cfg = GeminiNative \<and>
    (imageStoreURL cfg = None \<or> imageStoreURL cfg = Some []) \<longrightarrow>
      fst (generateImage cfg description) = Inr (Some JNull) \<and>
      filter isUpload (snd (generateImage cfg description)) = []) \<and>
   (\<exists>v. fst (generateImage cfg description) = Inr v) \<and>
   (canGenerateImages cfg \<and>
    (case imgBackend cfg of
       GeminiNative \<Rightarrow> generateImageGemini cfg description
     | AnthropicRefine \<Rightarrow> generateImageClaudeRefine cfg description
     | OpenAICompat \<Rightarrow> generateImageOpenAICompat (imgClient cfg) description) = (Inl e, evs) \<longrightarrow>
      generateImage cfg description = (Inr (Some JNull), evs))"
proof -
  have "fst (generateImage cfg description) = Inr (Some JNull) \<and>
        filter isUpload (snd (generateImage cfg description)) = []"
    if b: "imgBackend cfg = GeminiNative"
      and s: "imageStoreURL cfg = None \<or> imageStoreURL cfg = Some []"
  proof (cases "canGenerateImages cfg")
    case False
    then show ?thesis by (simp add: generateImage_def)
  next
    case True
    obtain r evs where g: "generateImageGemini cfg description = (r, evs)"
      by (cases "generateImageGemini cfg description")
    have evs: "evs = [ImagenRequest description]"
      using gemini_no_store(1) [OF s, of description] g by simp
    show ?thesis
    proof (cases r)
      case (Inl e)
      with True b g evs show ?thesis by (simp add: generateImage_def)
    next
      case (Inr v)
      with gemini_no_store(2) [OF s, of description v] g have "v = Some JNull" by simp
      with Inr True b g evs show ?thesis by (simp add: generateImage_def)
    qed
  qed
  moreover have "generateImage cfg description = (Inr (Some JNull), evs)"
    if "canGenerateImages cfg"
       "(case imgBackend cfg of
           GeminiNative \<Rightarrow> generateImageGemini cfg description
         | AnthropicRefine \<Rightarrow> generateImageClaudeRefine cfg description
         | OpenAICompat \<Rightarrow> generateImageOpenAICompat (imgClient cfg) description) = (Inl e, evs)"
    using that by (simp add: generateImage_def)
  ultimately show ?thesis
    using generateImage_catches by blast
qed

text \<open>The scenario of the specification, then the same backend with a store (the upload is
  made), then a backend whose request throws.\<close>

lemma geminiNoStore_run:
  "generateImage geminiNoStore ''a moon'' = (Inr (Some JNull), [ImagenRequest ''a moon''])"
  by code_simp

lemma geminiWithStore_run:
  "generateImage geminiWithStore ''a moon'' =
     (Inr (Some (JStr ''http://localhost:8001/images/1.png'')),
      [ImagenRequest ''a moon'', UploadRequest ''http://localhost:8001/upload'' ''bytes''])"
  by code_simp

lemma brokenImages_run:
  "generateImage brokenImages ''a moon'' = (Inr (Some JNull), [ImagesGenerate ''a moon''])"
  by code_simp

theorem generateImage_native_without_store_witness:
  "imgBackend geminiNoStore = GeminiNative \<and> imageStoreURL geminiNoStore = None \<and>
   generateImage geminiNoStore ''a moon'' = (Inr (Some JNull), [ImagenRequest ''a moon'']) \<and>
   filter isUpload (snd (generateImage geminiNoStore ''a moon'')) = [] \<and>
   generateImage brokenImages ''a moon'' = (Inr (Some JNull), [ImagesGenerate ''a moon''])"
  using generateImage_native_without_store [of geminiNoStore "''a moon''"]
    geminiNoStore_run brokenImages_run
  by (simp add: geminiNoStore_def offline_def)

subsection \<open>The search tool\<close>

declare braveLoop.simps [simp del]

lemma search_catches:
  "\<exists>results. fst (fst (search apiKey maxResults fetch lastSearchMs now resumed query)) = Inr results"
  by (auto simp: search_def Let_def split: prod.splits sum.splits)

lemma search_throw_empty:
  "fst (braveSearch apiKey maxResults fetch query) = Inl e \<Longrightarrow>
   fst (fst (search apiKey maxResults fetch lastSearchMs now resumed query)) = Inr []"
  by (auto simp: search_def Let_def split: prod.splits sum.splits)

lemma sleeps_append [simp]: "sleeps (xs @ ys) = sleeps xs @ sleeps ys"
  by (induction xs rule: sleeps.induct) simp_all

lemma fetches_append [simp]: "fetches (xs @ ys) = fetches xs @ fetches ys"
  by (induction xs rule: fetches.induct) simp_all

text \<open>From attempt \<open>a\<close> on, the loop sleeps the delays of the attempts it makes after the
  first, in order, and makes the attempts \<open>a, a + 1, \<dots>\<close> up to 3 at most.\<close>

lemma braveLoop_trace:
  "prefix (sleeps (snd (braveLoop fetch maxResults cleaned a)))
     (map (\<lambda>i. BASE_DELAY_MS * 2 ^ (i - 1)) [max 1 a ..< 4]) \<and>
   prefix (fetches (snd (braveLoop fetch maxResults cleaned a))) [a ..< 4]"
proof (induction fetch maxResults cleaned a rule: braveLoop.induct)
  case (1 fetch maxResults cleaned attempt)
  note unfold = braveLoop.simps [of fetch maxResults cleaned attempt]
  show ?case
  proof (cases "attempt \<le> MAX_RETRIES")
    case False
    then show ?thesis by (simp add: unfold)
  next
    case le: True
    then have a3: "attempt \<le> 3" by (simp add: MAX_RETRIES_def)
    have up: "[attempt ..< 4] = attempt # [Suc attempt ..< 4]"
      using a3 by (simp add: upt_conv_Cons)
    have up1: "0 < attempt \<Longrightarrow> [max 1 attempt ..< 4] = attempt # [max 1 (Suc attempt) ..< 4]"
      using a3 by (simp add: upt_conv_Cons max_def)
    have up0: "attempt = 0 \<Longrightarrow> [max 1 attempt ..< 4] = [max 1 (Suc attempt) ..< 4]"
      by simp
    show ?thesis
    proof (cases "fetch cleaned attempt")
      case (Inl e)
      with le up up1 show ?thesis by (auto simp: unfold Let_def)
    next
      case (Inr resp)
      show ?thesis
      proof (cases "status resp = 429 \<and> attempt < MAX_RETRIES")
        case True
        obtain r evs where rec: "braveLoop fetch maxResults cleaned (Suc attempt) = (r, evs)"
          by (cases "braveLoop fetch maxResults cleaned (Suc attempt)")
        have ih: "prefix (sleeps evs)
                    (map (\<lambda>i. BASE_DELAY_MS * 2 ^ (i - 1)) [max 1 (Suc attempt) ..< 4]) \<and>
                  prefix (fetches evs) [Suc attempt ..< 4]"
          using "1.IH" [OF le refl Inr] True rec by simp
        have step: "braveLoop fetch maxResults cleaned attempt =
            (r, (if 0 < attempt then [Sleep (BASE_DELAY_MS * 2 ^ (attempt - 1))] else [])
                @ [BraveFetch cleaned attempt] @ evs)"
          using le Inr True rec by (simp add: unfold Let_def)
        show ?thesis
        proof (cases "attempt = 0")
          case True
          with ih step show ?thesis
            by (simp add: upt_conv_Cons)
        next
          case False
          with ih up up1 step show ?thesis
            by simp
        qed
      next
        case False
        with le Inr up up1 show ?thesis
          by (auto simp: unfold Let_def split: sum.splits)
      qed
    qed
  qed
qed


lemma braveLoop_trace_0:
  "prefix (sleeps (snd (braveLoop fetch maxResults cleaned 0))) [1200, 2400, 4800] \<and>
   prefix (fetches (snd (braveLoop fetch maxResults cleaned 0))) [0, 1, 2, 3]"
proof -
  have m: "map (\<lambda>i. BASE_DELAY_MS * 2 ^ (i - 1)) [max 1 0 ..< 4] = [1200, 2400, 4800]"
    by (simp add: BASE_DELAY_MS_def upt_conv_Cons)
  have u: "[0 ..< 4] = [0, 1, 2, 3 :: nat]"
    by (simp add: upt_conv_Cons)
  show ?thesis
    using braveLoop_trace [of fetch maxResults cleaned 0] unfolding m u .
qed

lemma braveSearch_trace:
  "prefix (sleeps (snd (braveSearch apiKey maxResults fetch query))) [1200, 2400, 4800] \<and>
   prefix (fetches (snd (braveSearch apiKey maxResults fetch query))) [0, 1, 2, 3]"
  using braveLoop_trace_0 [of fetch maxResults]
  by (auto simp: braveSearch_def split: sum.splits)

lemma braveLoop_retry:
  assumes "attempt < MAX_RETRIES" and "fetch cleaned attempt = Inr resp" and "status resp = 429"
  shows "fst (braveLoop fetch maxResults cleaned attempt) =
           fst (braveLoop fetch maxResults cleaned (Suc attempt)) \<and>
         (\<exists>evs. snd (braveLoop fetch maxResults cleaned (Suc attempt)) =
                  Sleep (BASE_DELAY_MS * 2 ^ attempt) # BraveFetch cleaned (Suc attempt) # evs)"
proof -
  have "fst (braveLoop fetch maxResults cleaned attempt) =
          fst (braveLoop fetch maxResults cleaned (Suc attempt))"
    using assms
    by (simp add: braveLoop.simps [of fetch maxResults cleaned attempt] Let_def
        split: prod.splits)
  moreover have "\<exists>evs. snd (braveLoop fetch maxResults cleaned (Suc attempt)) =
                  Sleep (BASE_DELAY_MS * 2 ^ attempt) # BraveFetch cleaned (Suc attempt) # evs"
    using assms(1)
    by (auto simp: braveLoop.simps [of fetch maxResults cleaned "Suc attempt"] Let_def
        split: sum.splits prod.splits)
  ultimately show ?thesis by simp
qed

lemma braveLoop_failure:
  assumes "attempt \<le> MAX_RETRIES" and "fetch cleaned attempt = Inr resp" and "\<not> ok resp"
    and "\<not> (status resp = 429 \<and> attempt < MAX_RETRIES)"
  shows "fst (braveLoop fetch maxResults cleaned attempt) = Inr []"
  using assms
  by (auto simp: braveLoop.simps [of fetch maxResults cleaned attempt] Let_def)

lemma braveLoop_throw:
  assumes "attempt \<le> MAX_RETRIES" and "fetch cleaned attempt = Inl e"
  shows "fst (braveLoop fetch maxResults cleaned attempt) = Inl e"
  using assms
  by (auto simp: braveLoop.simps [of fetch maxResults cleaned attempt] Let_def)

text \<open>
  \<^bold>\<open>C6.\<close>  \<open>search(query)\<close> throws nothing, whatever the query and the endpoint do.  Inside
  \<open>braveSearch\<close> the sleeps are the first so many of 1200, 2400 and 4800 milliseconds and the
  requests are the attempts 0, 1, 2, 3 in order, four at most.  A response with status 429
  to an attempt before the third retry is followed by the next attempt, after a sleep of
  \<open>BASE_DELAY_MS\<close> doubled once for each earlier retry.  Any other response that is not
  \<open>ok\<close> ends the loop with no results.  A request that throws makes \<open>braveSearch\<close> throw,
  and whenever \<open>braveSearch\<close> throws, \<open>search\<close> returns no results.
\<close>

theorem search_retries_and_degrades:
  "(\<exists>results. fst (fst (search apiKey maxResults fetch lastSearchMs now resumed query))
      = Inr results) \<and>
   prefix (sleeps (snd (braveSearch apiKey maxResults fetch query))) [1200, 2400, 4800] \<and>
   prefix (fetches (snd (braveSearch apiKey maxResults fetch query))) [0, 1, 2, 3] \<and>
   (attempt < MAX_RETRIES \<and> fetch cleaned attempt = Inr resp \<and> status resp = 429 \<longrightarrow>
      fst (braveLoop fetch maxResults cleaned attempt) =
        fst (braveLoop fetch maxResults cleaned (Suc attempt)) \<and>
      (\<exists>evs. snd (braveLoop fetch maxResults cleaned (Suc attempt)) =
               Sleep (BASE_DELAY_MS * 2 ^ attempt) # BraveFetch cleaned (Suc attempt) # evs)) \<and>
   (attempt \<le> MAX_RETRIES \<and> fetch cleaned attempt = Inr resp \<and> \<not> ok resp \<and>
    \<not> (status resp = 429 \<and> attempt < MAX_RETRIES) \<longrightarrow>
      fst (braveLoop fetch maxResults cleaned attempt) = Inr []) \<and>
   (attempt \<le> MAX_RETRIES \<and> fetch cleaned attempt = Inl e \<longrightarrow>
      fst (braveLoop fetch maxResults cleaned attempt) = Inl e) \<and>
   (fst (braveSearch apiKey maxResults fetch query) = Inl e \<longrightarrow>
      fst (fst (search apiKey maxResults fetch lastSearchMs now resumed query)) = Inr [])"
  using search_catches [of apiKey maxResults fetch lastSearchMs now resumed query]
    braveSearch_trace [of apiKey maxResults fetch query]
    braveLoop_retry [of attempt fetch cleaned resp maxResults]
    braveLoop_failure [of attempt fetch cleaned resp maxResults]
    braveLoop_throw [of attempt fetch cleaned e maxResults]
    search_throw_empty [of apiKey maxResults fetch query e lastSearchMs now resumed]
  by blast

text \<open>An endpoint that always answers 429: four requests, the three delays, no results.
  An endpoint that is down: one request, no results.\<close>

lemma rateLimited_run:
  "search ''key'' 5 rateLimited 0 5000 5000 (JStr ''cats and dogs'') =
     ((Inr [], 5000),
      [BraveFetch ''cats and dogs'' 0, Sleep 1200,
       BraveFetch ''cats and dogs'' 1, Sleep 2400,
       BraveFetch ''cats and dogs'' 2, Sleep 4800,
       BraveFetch ''cats and dogs'' 3])"
  by code_simp

lemma unreachable_run:
  "search ''key'' 5 unreachable 0 5000 5000 (JStr ''cats and dogs'') =
     ((Inr [], 5000), [BraveFetch ''cats and dogs'' 0])"
  by code_simp

lemma unreachable_throws:
  "fst (braveSearch ''key'' 5 unreachable (JStr ''cats and dogs'')) = Inl (Exn ''fetch failed'')"
  by code_simp

theorem search_retries_and_degrades_witness:
  "search ''key'' 5 rateLimited 0 5000 5000 (JStr ''cats and dogs'') =
     ((Inr [], 5000),
      [BraveFetch ''cats and dogs'' 0, Sleep 1200,
       BraveFetch ''cats and dogs'' 1, Sleep 2400,
       BraveFetch ''cats and dogs'' 2, Sleep 4800,
       BraveFetch ''cats and dogs'' 3]) \<and>
   fst (braveSearch ''key'' 5 unreachable (JStr ''cats and dogs'')) = Inl (Exn ''fetch failed'') \<and>
   fst (fst (search ''key'' 5 unreachable 0 5000 5000 (JStr ''cats and dogs''))) = Inr []"
  using search_retries_and_degrades
    [of "''key''" 5 unreachable 0 5000 5000 "JStr ''cats and dogs''" 0 "''cats and dogs''"
        _ "Exn ''fetch failed''"]
    rateLimited_run unreachable_throws
  by simp

subsection \<open>Pacing\<close>

text \<open>The log of \<open>search\<close> is the pacing sleep, if any, and the log of \<open>braveSearch\<close>,
  which begins with the request of attempt 0 when it is not empty.\<close>

lemma search_stamp [simp]:
  "snd (fst (search apiKey maxResults fetch lastSearchMs now resumed query)) = resumed"
  by (auto simp: search_def Let_def split: prod.splits sum.splits)























end
